theory Spec2Isabelle
  imports Complex_Main
begin

section \<open>Chunked, resumable upload: the two upload hooks\<close>

text \<open>
  Two hooks with the same structure are modelled:
  \<^item> \<^verbatim>\<open>useS3Upload\<close> (the S3 hook, \<^verbatim>\<open>use-s3-upload.ts\<close>), whose functions keep
    their source names here;
  \<^item> \<^verbatim>\<open>useUpload\<close> (\<^verbatim>\<open>components/local-file-upload/use-file-upload.ts\<close>), whose
    functions carry the suffix \<open>_local\<close>.
  The repository also holds the component that uses the S3 hook, together with an earlier
  copy of \<^verbatim>\<open>useS3Upload\<close> (its transporter timer is 60 s); that copy is not modelled.

  Byte counts, indices and percentages are natural numbers: the source uses JavaScript
  numbers, which are exact on the integers below \<open>2^53\<close> that file sizes and chunk
  indices take. A percentage is computed as the source computes it, in double arithmetic
  (see \<open>roundPercent\<close>). Clock readings are integers (milliseconds). Speeds are reals: the
  rounding of the speed figures to doubles is not modelled.
\<close>

subsection \<open>Data model\<close>

text \<open>
  \<^verbatim>\<open>S3ChunkInfo\<close>. The byte range \<^verbatim>\<open>[start, end)\<close> stands for \<^verbatim>\<open>blob = file.slice(start, end)\<close>.
  \<^verbatim>\<open>abortController\<close> is the identity of the controller object the chunk currently
  refers to (\<open>None\<close> for \<^verbatim>\<open>undefined\<close>). The fields \<^verbatim>\<open>etag\<close>, \<^verbatim>\<open>chunkHash\<close> and the two
  timestamps are written but never read by the operations modelled here and are left out.
\<close>

record S3ChunkInfo =
  index :: nat
  partNumber :: nat
  start :: nat
  end_byte :: nat
  uploaded :: bool
  progress :: nat
  retryCount :: nat
  abortController :: "nat option"

text \<open>\<^verbatim>\<open>ChunkInfo\<close> of the local hook; \<^verbatim>\<open>hash\<close> is the chunk identifier.\<close>

record ChunkInfo =
  index_local :: nat
  start_local :: nat
  end_local :: nat
  hash_local :: string
  uploaded_local :: bool
  progress_local :: nat
  retryCount_local :: nat

subsection \<open>Chunk planner\<close>

text \<open>
  \<^verbatim>\<open>Math.ceil(file.size / chunkSize)\<close> on natural numbers. For \<^verbatim>\<open>chunkSize = 0\<close> the
  source computes \<^verbatim>\<open>Infinity\<close> (or \<^verbatim>\<open>NaN\<close>) and this definition gives 0; every statement
  below that uses it has a positive chunk size.
\<close>

definition totalChunksOf :: "nat \<Rightarrow> nat \<Rightarrow> nat" where
  "totalChunksOf chunkSize fileSize = (fileSize + chunkSize - 1) div chunkSize"

text \<open>
  The body of the planning loop of the S3 hook's \<^verbatim>\<open>createChunks\<close>, for loop index \<open>i\<close>:
  \<^verbatim>\<open>start = i * chunkSize; end = Math.min(start + chunkSize, file.size); partNumber = i + 1\<close>.
\<close>

definition newChunk :: "nat \<Rightarrow> nat \<Rightarrow> bool \<Rightarrow> nat \<Rightarrow> S3ChunkInfo" where
  "newChunk chunkSize fileSize isUploaded i =
     \<lparr> index = i,
       partNumber = i + 1,
       start = i * chunkSize,
       end_byte = min (i * chunkSize + chunkSize) fileSize,
       uploaded = isUploaded,
       progress = (if isUploaded then 100 else 0),
       retryCount = 0,
       abortController = None \<rparr>"

text \<open>\<^verbatim>\<open>createChunks(file)\<close> of the S3 hook: \<^verbatim>\<open>for (let i = 0; i < totalChunks; i++) push\<close>.\<close>

definition createChunks :: "nat \<Rightarrow> nat \<Rightarrow> S3ChunkInfo list" where
  "createChunks chunkSize fileSize =
     map (newChunk chunkSize fileSize False) [0 ..< totalChunksOf chunkSize fileSize]"

text \<open>
  Template literal \<^verbatim>\<open>${i}\<close> for a non-negative integer: its decimal digits.
\<close>

definition digit :: "nat \<Rightarrow> char" where
  "digit d = ''0123456789'' ! d"

fun decimal :: "nat \<Rightarrow> string" where
  "decimal n =
     (if n < 10 then [digit n] else decimal (n div 10) @ [digit (n mod 10)])"

declare decimal.simps [simp del]

text \<open>The chunk identifier of the local hook, \<^verbatim>\<open>`${fileHashValue}_chunk_${i}`\<close>.\<close>

definition chunkHashOf :: "string \<Rightarrow> nat \<Rightarrow> string" where
  "chunkHashOf fileHashValue i = fileHashValue @ ''_chunk_'' @ decimal i"

definition newChunk_local :: "nat \<Rightarrow> nat \<Rightarrow> string \<Rightarrow> bool \<Rightarrow> nat \<Rightarrow> ChunkInfo" where
  "newChunk_local chunkSize fileSize fileHashValue isUploaded i =
     \<lparr> index_local = i,
       start_local = i * chunkSize,
       end_local = min (i * chunkSize + chunkSize) fileSize,
       hash_local = chunkHashOf fileHashValue i,
       uploaded_local = isUploaded,
       progress_local = (if isUploaded then 100 else 0),
       retryCount_local = 0 \<rparr>"

text \<open>\<^verbatim>\<open>createChunks(file, fileHashValue)\<close> of the local hook.\<close>

definition createChunks_local :: "nat \<Rightarrow> nat \<Rightarrow> string \<Rightarrow> ChunkInfo list" where
  "createChunks_local chunkSize fileSize fileHashValue =
     map (newChunk_local chunkSize fileSize fileHashValue False)
       [0 ..< totalChunksOf chunkSize fileSize]"

text \<open>The byte span \<^verbatim>\<open>chunk.end - chunk.start\<close>, as \<^verbatim>\<open>uploadedSize\<close> sums it.\<close>

definition span :: "S3ChunkInfo \<Rightarrow> nat" where
  "span c = end_byte c - start c"

definition span_local :: "ChunkInfo \<Rightarrow> nat" where
  "span_local c = end_local c - start_local c"

subsection \<open>Session reconciler: marking the chunks a check response reports\<close>

text \<open>
  \<^verbatim>\<open>S3UploadSession\<close> as the check response of the S3 hook carries it. \<^verbatim>\<open>uploadedParts\<close>,
  \<^verbatim>\<open>progress\<close> and \<^verbatim>\<open>parts\<close> are optional; \<^verbatim>\<open>parts\<close> lists the part numbers the
  backend holds (the \<^verbatim>\<open>etag\<close> of each part and the identifying strings of the session
  are not read by the hook's decisions and are left out).
\<close>

record S3UploadSession =
  session_totalChunks :: nat
  uploadedParts :: "nat option"
  session_progress :: "nat option"
  parts :: "nat list option"

text \<open>\<^verbatim>\<open>x || 0\<close> for an optional number.\<close>

definition orZero :: "nat option \<Rightarrow> nat" where
  "orZero x = (case x of None \<Rightarrow> 0 | Some n \<Rightarrow> n)"

text \<open>
  \<^verbatim>\<open>createChunksAndMarkUploaded(file, session)\<close> of the S3 hook. In the loop body
  \<^verbatim>\<open>uploadedPartsCount = session.uploadedParts || 0\<close> and
  \<^verbatim>\<open>isUploaded = uploadedPartsCount > i\<close>; \<^verbatim>\<open>session.parts\<close> is not read.
\<close>

definition createChunksAndMarkUploaded :: "nat \<Rightarrow> nat \<Rightarrow> S3UploadSession \<Rightarrow> S3ChunkInfo list" where
  "createChunksAndMarkUploaded chunkSize fileSize session =
     map (\<lambda>i. newChunk chunkSize fileSize (orZero (uploadedParts session) > i) i)
       [0 ..< totalChunksOf chunkSize fileSize]"

text \<open>
  \<^verbatim>\<open>createChunksAndMarkUploaded(file, fileHashValue, uploadedChunkHashes)\<close> of the local
  hook: \<^verbatim>\<open>isUploaded = uploadedChunkHashes.includes(chunkHash)\<close>.
\<close>

definition createChunksAndMarkUploaded_local ::
    "nat \<Rightarrow> nat \<Rightarrow> string \<Rightarrow> string list \<Rightarrow> ChunkInfo list" where
  "createChunksAndMarkUploaded_local chunkSize fileSize fileHashValue uploadedChunkHashes =
     map (\<lambda>i. newChunk_local chunkSize fileSize fileHashValue
                 (chunkHashOf fileHashValue i \<in> set uploadedChunkHashes) i)
       [0 ..< totalChunksOf chunkSize fileSize]"

subsection \<open>Speed tracker\<close>

text \<open>\<^verbatim>\<open>S3SpeedInfo\<close> and \<^verbatim>\<open>S3NetworkStats\<close>; speeds are in bytes per second.\<close>

record S3SpeedInfo =
  current :: real
  average :: real
  peak :: real
  lastUpdate :: int

record S3NetworkStats =
  uploadedBytes :: nat
  totalBytes :: nat
  startTime :: int
  lastMeasureTime :: int
  lastMeasureBytes :: nat
  speedHistory :: "real list"

type_synonym tracker = "S3SpeedInfo \<times> S3NetworkStats"

text \<open>\<^verbatim>\<open>resetNetworkStats()\<close>.\<close>

definition resetNetworkStats :: tracker where
  "resetNetworkStats =
     (\<lparr> current = 0, average = 0, peak = 0, lastUpdate = 0 \<rparr>,
      \<lparr> uploadedBytes = 0, totalBytes = 0, startTime = 0, lastMeasureTime = 0,
        lastMeasureBytes = 0, speedHistory = [] \<rparr>)"

text \<open>
  \<^verbatim>\<open>updateNetworkStats(uploadedBytes)\<close>, with the clock reading \<^verbatim>\<open>now = Date.now()\<close> as an
  argument. The statements are in source order; \<^verbatim>\<open>push\<close> appends to the history and
  \<^verbatim>\<open>shift\<close> drops its first entry.
\<close>

definition updateNetworkStats :: "int \<Rightarrow> nat \<Rightarrow> tracker \<Rightarrow> tracker" where
  "updateNetworkStats now bytes t =
     (let speedInfo = fst t; networkStats = snd t in
      if startTime networkStats = 0 then
        (speedInfo,
         networkStats\<lparr> startTime := now, lastMeasureTime := now, lastMeasureBytes := bytes \<rparr>)
      else
        let timeDiff = now - lastMeasureTime networkStats in
        if timeDiff \<ge> 1000 then
          let bytesDiff = real bytes - real (lastMeasureBytes networkStats);
              currentSpeed = bytesDiff / (real_of_int timeDiff / 1000);
              pushed = speedHistory networkStats @ [currentSpeed];
              history = (if length pushed > 10 then tl pushed else pushed);
              totalTime = real_of_int (now - startTime networkStats) / 1000
          in (speedInfo\<lparr> current := currentSpeed,
                          lastUpdate := now,
                          average := (if totalTime > 0 then real bytes / totalTime else 0),
                          peak := (if currentSpeed > peak speedInfo then currentSpeed
                                   else peak speedInfo) \<rparr>,
              networkStats\<lparr> speedHistory := history,
                             lastMeasureTime := now,
                             lastMeasureBytes := bytes \<rparr>)
        else t)"

text \<open>
  A run of the tracker: the calls \<^verbatim>\<open>updateNetworkStats(bytes)\<close> made since the last reset,
  each with the clock reading at the call.
\<close>

definition feed :: "(int \<times> nat) list \<Rightarrow> tracker \<Rightarrow> tracker" where
  "feed calls t = foldl (\<lambda>t c. updateNetworkStats (fst c) (snd c) t) t calls"

text \<open>
  Read from the state of the tracker: a call takes a sample when the tracker has started
  and at least 1000 ms have passed since \<^verbatim>\<open>lastMeasureTime\<close>, and the sample is
  (bytes now - \<^verbatim>\<open>lastMeasureBytes\<close>) / (seconds since \<^verbatim>\<open>lastMeasureTime\<close>).
\<close>

definition takesSample :: "int \<Rightarrow> tracker \<Rightarrow> bool" where
  "takesSample now t = (startTime (snd t) \<noteq> 0 \<and> now - lastMeasureTime (snd t) \<ge> 1000)"

definition sampleAt :: "int \<Rightarrow> nat \<Rightarrow> tracker \<Rightarrow> real" where
  "sampleAt now bytes t =
     (real bytes - real (lastMeasureBytes (snd t)))
       / (real_of_int (now - lastMeasureTime (snd t)) / 1000)"

text \<open>All samples a run takes, oldest first.\<close>

fun samples :: "(int \<times> nat) list \<Rightarrow> tracker \<Rightarrow> real list" where
  "samples [] t = []"
| "samples (c # cs) t =
     (if takesSample (fst c) t then [sampleAt (fst c) (snd c) t] else [])
       @ samples cs (updateNetworkStats (fst c) (snd c) t)"

text \<open>The \<open>n\<close> most recent entries of a list that grows at its end.\<close>

definition lastN :: "nat \<Rightarrow> 'a list \<Rightarrow> 'a list" where
  "lastN n xs = drop (length xs - n) xs"

text \<open>
  What the tracker is compared with. The next three definitions are not code of the
  hooks: they say, from the calls alone and with no reference to the state of the
  tracker, which calls are measurements and what the samples are. A call is the pair of
  its clock reading and its byte count. \<open>measured lt calls\<close> are the calls that take a
  sample when the last measurement was at time \<open>lt\<close>: each is at least 1000 ms after the
  measurement before it and becomes the last measurement itself. \<open>rate p q\<close> is the speed
  between two measurements, in bytes per second, and \<open>rates ms\<close> are the speeds between each
  measurement of a list and the next.
\<close>

fun measured :: "int \<Rightarrow> (int \<times> nat) list \<Rightarrow> (int \<times> nat) list" where
  "measured lt [] = []"
| "measured lt (c # cs) =
     (if fst c - lt \<ge> 1000 then c # measured (fst c) cs else measured lt cs)"

definition rate :: "int \<times> nat \<Rightarrow> int \<times> nat \<Rightarrow> real" where
  "rate p q = (real (snd q) - real (snd p)) / (real_of_int (fst q - fst p) / 1000)"

fun rates :: "(int \<times> nat) list \<Rightarrow> real list" where
  "rates (p # q # ms) = rate p q # rates (q # ms)"
| "rates [p] = []"
| "rates [] = []"

subsection \<open>State of the S3 hook\<close>

text \<open>
  The errors the S3 hook throws, one constructor for each message:
  \<^verbatim>\<open>NoFile\<close> and \<^verbatim>\<open>NoHash\<close> (the guards of \<^verbatim>\<open>startUpload\<close>), \<^verbatim>\<open>NoFileOrHash\<close>
  (\<^verbatim>\<open>checkUploadStatus\<close>, \<^verbatim>\<open>initializeUpload\<close>), \<^verbatim>\<open>FetchFailed\<close> (\<^verbatim>\<open>fetch\<close> rejects or
  \<^verbatim>\<open>response.ok\<close> is false), \<^verbatim>\<open>InitRefused\<close>, \<^verbatim>\<open>NoSession\<close>, \<^verbatim>\<open>PausedCannotComplete\<close>,
  \<^verbatim>\<open>CompleteRefused\<close>, \<^verbatim>\<open>NothingToResume\<close>, \<^verbatim>\<open>NoSessionOrChunkHash\<close> (the guard of
  \<^verbatim>\<open>uploadChunk\<close>), \<^verbatim>\<open>UploadTimeout\<close> (the transporter's timer), \<^verbatim>\<open>UploadCancelled\<close> (the
  listener on the abort signal), \<^verbatim>\<open>RequestAborted\<close> (the listener on the XHR's abort event),
  \<^verbatim>\<open>NetworkError\<close>, \<^verbatim>\<open>HttpStatus\<close>, \<^verbatim>\<open>ParseFailed\<close>, \<^verbatim>\<open>ChunkRefused\<close> and
  \<^verbatim>\<open>RetriesExhausted\<close> (thrown by \<^verbatim>\<open>uploadSingleChunk\<close> after its loop).
\<close>

datatype error =
    NoFile | NoHash | NoFileOrHash | FetchFailed | InitRefused | NoSession
  | PausedCannotComplete | CompleteRefused | NothingToResume
  | NoSessionOrChunkHash | UploadTimeout | UploadCancelled | RequestAborted
  | NetworkError | HttpStatus | ParseFailed | ChunkRefused | RetriesExhausted

text \<open>
  \<^verbatim>\<open>error.message.includes(...)\<close> with the marker of a cancellation: of the hook's own
  messages only that of \<^verbatim>\<open>UploadCancelled\<close> contains it (a message supplied by the backend
  is taken not to contain it).
\<close>

definition mentionsCancel :: "error \<Rightarrow> bool" where
  "mentionsCancel e = (e = UploadCancelled)"

record S3UploadProgress =
  loaded :: nat
  total :: nat
  percentage :: nat

text \<open>
  One activation of \<^verbatim>\<open>uploadSingleChunk(chunk)\<close>, together with the promise
  \<^verbatim>\<open>uploadSingleChunk(chunk).then(...).catch(...)\<close> that the scheduling loop pushes:
  \<^item> \<open>Returning\<close>: the activation returned at its first line (\<^verbatim>\<open>if (isPaused.value) return\<close>);
  \<^item> \<open>Rejecting e\<close>: the promise of \<^verbatim>\<open>uploadChunk\<close> is rejected with \<open>e\<close> and the
    activation has not resumed yet;
  \<^item> \<open>ReturnedFalse\<close>: \<^verbatim>\<open>uploadChunk\<close> returned \<^verbatim>\<open>false\<close> from its \<^verbatim>\<open>catch\<close> clause and the
    activation has not resumed yet;
  \<^item> \<open>Uploading\<close>: the request is sent and the XHR is in flight;
  \<^item> \<open>Delaying ms\<close>: the activation waits \<open>ms\<close> milliseconds before the next attempt;
  \<^item> \<open>Settled\<close>: the promise is settled and spliced from \<^verbatim>\<open>executing\<close>.
\<close>

datatype job_state = Returning | Rejecting error | ReturnedFalse | Uploading | Delaying nat | Settled

record job =
  j_chunk :: nat
  j_pass :: nat
  j_attempts :: nat
  j_controller :: "nat option"
  j_state :: job_state

text \<open>
  One activation of \<^verbatim>\<open>uploadChunksConcurrently()\<close>: the part of \<^verbatim>\<open>pendingChunks\<close> the loop
  has not reached, the array \<^verbatim>\<open>executing\<close>, who called it, and where it is suspended:
  at \<^verbatim>\<open>await Promise.race(executing)\<close>, at \<^verbatim>\<open>await Promise.allSettled(executing)\<close>, returned, or
  ended by an exception.
\<close>

datatype control = Racing | Settling | Finished | Failed error

datatype caller = ByStartUpload | ByResumeUpload

record pass =
  pendingChunks :: "nat list"
  executing :: "nat list"
  control :: control
  caller :: caller

datatype request = CheckRequest | InitializeRequest | ChunkRequest nat | CompleteRequest

text \<open>
  The reactive state of \<^verbatim>\<open>useS3Upload\<close>, followed by what the JavaScript runtime holds for
  it. \<^verbatim>\<open>currentFile\<close> is the size of the file (\<open>None\<close> for \<^verbatim>\<open>null\<close>). A chunk object is
  identified by its position in \<^verbatim>\<open>chunks.value\<close>. The runtime part:
  \<^item> \<open>deferred\<close>: the chunk lists that calls of \<^verbatim>\<open>createChunksAndMarkUploaded\<close>, which
    \<^verbatim>\<open>checkUploadStatus\<close> does not await, will assign to \<^verbatim>\<open>chunks.value\<close>;
  \<^item> \<open>requests\<close>: the requests sent to the backend so far;
  \<^item> \<open>jobs\<close>, \<open>passes\<close>: the activations described above, oldest first;
  \<^item> \<open>controllers\<close>: how many \<^verbatim>\<open>AbortController\<close> objects exist; \<open>aborted\<close>: those whose
    signal is aborted;
  \<^item> \<open>completing\<close>: calls of \<^verbatim>\<open>completeUpload\<close> that wait for the backend;
  \<^item> \<open>returned\<close>: what the finished calls of \<^verbatim>\<open>startUpload\<close> and \<^verbatim>\<open>resumeUpload\<close> returned
    (\<open>Inr\<close>) or threw (\<open>Inl\<close>);
  \<^item> \<open>acknowledged\<close>: the indices of the chunks whose upload request the backend has
    answered with success, one entry for each such answer.
\<close>

record task =
  isUploading :: bool
  isPaused :: bool
  isCompleted :: bool
  isCheckingUpload :: bool
  isInitializing :: bool
  isSecondTransfer :: bool
  currentFile :: "nat option"
  fileHash :: string
  chunks :: "S3ChunkInfo list"
  uploadSession :: "S3UploadSession option"
  uploadProgress :: S3UploadProgress
  speedInfo :: S3SpeedInfo
  networkStats :: S3NetworkStats
  resumeInfo :: "(nat \<times> nat \<times> nat) option"
  executingChunks :: "nat set"
  deferred :: "S3ChunkInfo list list"
  requests :: "request list"
  jobs :: "job list"
  passes :: "pass list"
  controllers :: nat
  aborted :: "nat set"
  completing :: nat
  returned :: "(error + string option) list"
  acknowledged :: "nat list"

text \<open>
  The options of the hook, and \<open>tryThrows c a\<close>: whether a statement inside the \<^verbatim>\<open>try\<close>
  block of \<^verbatim>\<open>uploadChunk\<close> throws synchronously at attempt \<open>a\<close> for the chunk at position
  \<open>c\<close>. (That block assigns two fields, constructs an XHR and returns a promise without
  awaiting it; a rejection of that promise is not an exception inside the block.)
\<close>

record env =
  chunkSize :: nat
  concurrent :: nat
  retryTimes :: nat
  tryThrows :: "nat \<Rightarrow> nat \<Rightarrow> bool"

definition defaultOptions :: env where
  "defaultOptions = \<lparr> chunkSize = 5 * 1024 * 1024, concurrent = 3, retryTimes = 3,
     tryThrows = (\<lambda>c a. False) \<rparr>"

subsection \<open>Progress accounting\<close>

text \<open>
  JavaScript numbers are IEEE 754 doubles, and \<^verbatim>\<open>Math.round((a / b) * 100)\<close> rounds the
  quotient and the product to doubles before it rounds to an integer, which shows in the
  result: 23 of 40 gives 57, where the exact value 57.5 would give 58. A double is written
  here as a fraction of integers. \<open>bitLength x\<close> is the number of binary digits of \<open>x\<close>.
\<close>

function bitLength :: "int \<Rightarrow> nat" where
  "bitLength x = (if 0 < x then Suc (bitLength (x div 2)) else 0)"
  by pat_completeness auto
termination by (relation "measure nat") auto

declare bitLength.simps [simp del]

text \<open>The integer nearest to \<open>n / d\<close>, a tie going to the even one (\<open>n \<ge> 0\<close>, \<open>d > 0\<close>).\<close>

definition roundNearestEven :: "int \<Rightarrow> int \<Rightarrow> int" where
  "roundNearestEven n d =
     (let q = n div d; r = n mod d
      in if 2 * r > d \<or> (2 * r = d \<and> odd q) then q + 1 else q)"

text \<open>
  \<open>toDouble (n, d)\<close> is the double nearest to \<open>n / d\<close> (round to nearest, ties to even), for
  \<open>n \<ge> 0\<close> and \<open>d > 0\<close> with a quotient in the range of the normal doubles: with \<open>e\<close> the
  exponent for which \<open>n / d / 2^e\<close> lies in \<open>[2^52, 2^53)\<close>, the result is that scaled
  quotient rounded to an integer, times \<open>2^e\<close>. \<open>scaleUp e\<close> and \<open>scaleDown e\<close> are the factors
  \<open>2^(-e)\<close> and \<open>2^e\<close> that fall on the numerator and on the denominator.
\<close>

definition scaleUp :: "int \<Rightarrow> int" where
  "scaleUp e = (if e < 0 then 2 ^ nat (- e) else 1)"

definition scaleDown :: "int \<Rightarrow> int" where
  "scaleDown e = (if 0 < e then 2 ^ nat e else 1)"

definition toDouble :: "int \<times> int \<Rightarrow> int \<times> int" where
  "toDouble x =
     (let n = fst x; d = snd x in
      if n = 0 then (0, 1)
      else
        let e0 = int (bitLength n) - int (bitLength d) - 53;
            e = (if n * scaleUp e0 \<ge> 2 ^ 53 * (d * scaleDown e0) then e0 + 1 else e0);
            m = roundNearestEven (n * scaleUp e) (d * scaleDown e)
        in (m * scaleDown e, scaleUp e))"

text \<open>
  \<^verbatim>\<open>Math.round(x)\<close> for a double \<open>x \<ge> 0\<close>: the nearest integer, a tie going up, computed
  exactly.
\<close>

definition mathRound :: "int \<times> int \<Rightarrow> int" where
  "mathRound x = (2 * fst x + snd x) div (2 * snd x)"

text \<open>
  \<^verbatim>\<open>Math.round((a / b) * 100)\<close> for natural numbers \<open>a\<close> and \<open>b > 0\<close>: the division and the
  multiplication each give the nearest double. (For \<open>b = 0\<close> the source gets \<^verbatim>\<open>NaN\<close> or
  \<^verbatim>\<open>Infinity\<close>, where this gives 0: \<^verbatim>\<open>updateTotalProgress\<close> excludes the case, and the
  progress events of a chunk request carry the positive size of the request body.)
\<close>

definition roundPercent :: "nat \<Rightarrow> nat \<Rightarrow> nat" where
  "roundPercent a b =
     (if b = 0 then 0
      else let q = toDouble (int a, int b);
               p = toDouble (100 * fst q, snd q)
           in nat (mathRound p))"

text \<open>The computed properties \<^verbatim>\<open>uploadedChunks\<close>, \<^verbatim>\<open>remainingChunks\<close>, \<^verbatim>\<open>uploadedSize\<close>.\<close>

definition uploadedChunks :: "task \<Rightarrow> S3ChunkInfo list" where
  "uploadedChunks m = filter uploaded (chunks m)"

definition remainingChunks :: "task \<Rightarrow> nat list" where
  "remainingChunks m = filter (\<lambda>c. \<not> uploaded (chunks m ! c)) [0 ..< length (chunks m)]"

definition uploadedSize :: "task \<Rightarrow> nat" where
  "uploadedSize m = sum_list (map span (uploadedChunks m))"

text \<open>\<^verbatim>\<open>updateTotalProgress()\<close>.\<close>

definition updateTotalProgress :: "task \<Rightarrow> task" where
  "updateTotalProgress m =
     (case currentFile m of
        None \<Rightarrow> m
      | Some fileSize \<Rightarrow>
          m\<lparr> uploadProgress :=
               \<lparr> loaded = uploadedSize m, total = fileSize,
                 percentage =
                   (if fileSize > 0 then roundPercent (uploadedSize m) fileSize else 0) \<rparr> \<rparr>)"

subsection \<open>Transfer scheduler and chunk transporter\<close>

text \<open>Updates of one chunk object, one job, one pass.\<close>

definition setChunk :: "nat \<Rightarrow> (S3ChunkInfo \<Rightarrow> S3ChunkInfo) \<Rightarrow> task \<Rightarrow> task" where
  "setChunk c f m = m\<lparr> chunks := (chunks m)[c := f (chunks m ! c)] \<rparr>"

definition setJob :: "nat \<Rightarrow> (job \<Rightarrow> job) \<Rightarrow> task \<Rightarrow> task" where
  "setJob j f m = m\<lparr> jobs := (jobs m)[j := f (jobs m ! j)] \<rparr>"

definition setPass :: "nat \<Rightarrow> (pass \<Rightarrow> pass) \<Rightarrow> task \<Rightarrow> task" where
  "setPass p f m = m\<lparr> passes := (passes m)[p := f (passes m ! p)] \<rparr>"

text \<open>
  A promise settles once: of the calls of \<^verbatim>\<open>reject\<close> made in one handler the first one
  decides the reason.
\<close>

definition firstReject :: "error list \<Rightarrow> error" where
  "firstReject es = hd es"

text \<open>
  The timeout of one chunk transporter in milliseconds: the second argument of
  \<^verbatim>\<open>setTimeout\<close> in \<^verbatim>\<open>uploadChunk\<close>, written \<^verbatim>\<open>60_000 * 60\<close>; and the one of the local hook,
  \<^verbatim>\<open>30_000\<close>.
\<close>

definition uploadTimeoutMs :: nat where
  "uploadTimeoutMs = 60000 * 60"

definition uploadTimeoutMs_local :: nat where
  "uploadTimeoutMs_local = 30000"

text \<open>
  The synchronous part of \<^verbatim>\<open>uploadChunk(chunk)\<close> for job \<open>j\<close>: the guard, the new
  \<^verbatim>\<open>AbortController\<close>, and the \<^verbatim>\<open>try\<close> block, which sets \<^verbatim>\<open>chunk.progress = 1\<close> and sends the
  request with the whole blob of the chunk. When the block throws, the \<^verbatim>\<open>catch\<close> clause
  runs: \<^verbatim>\<open>chunk.retryCount++; chunk.progress = 0; return false\<close>.
\<close>

definition uploadChunk_call :: "env \<Rightarrow> nat \<Rightarrow> task \<Rightarrow> task" where
  "uploadChunk_call e j m =
     (let c = j_chunk (jobs m ! j); k = controllers m in
      if uploadSession m = None then
        setJob j (\<lambda>b. b\<lparr> j_state := Rejecting NoSessionOrChunkHash \<rparr>) m
      else if tryThrows e c (j_attempts (jobs m ! j)) then
        setJob j (\<lambda>b. b\<lparr> j_controller := Some k, j_state := ReturnedFalse \<rparr>)
          (setChunk c (\<lambda>ch. ch\<lparr> abortController := Some k,
                                  retryCount := retryCount ch + 1, progress := 0 \<rparr>)
             (m\<lparr> controllers := k + 1 \<rparr>))
      else
        setJob j (\<lambda>b. b\<lparr> j_controller := Some k, j_state := Uploading \<rparr>)
          (setChunk c (\<lambda>ch. ch\<lparr> abortController := Some k, progress := 1 \<rparr>)
             (m\<lparr> controllers := k + 1,
                requests := requests m @ [ChunkRequest (index (chunks m ! c))] \<rparr>)))"

text \<open>
  The synchronous part of \<^verbatim>\<open>uploadSingleChunk(chunk)\<close>, called by pass \<open>p\<close> for the chunk at
  position \<open>c\<close>: the early return when paused; else the chunk's index enters
  \<^verbatim>\<open>executingChunks\<close>, \<^verbatim>\<open>attempts\<close> becomes 1 and \<^verbatim>\<open>uploadChunk\<close> is called. The new job
  gets the next job number.
\<close>

definition uploadSingleChunk_call :: "env \<Rightarrow> nat \<Rightarrow> nat \<Rightarrow> task \<Rightarrow> task" where
  "uploadSingleChunk_call e p c m =
     (let j = length (jobs m) in
      if isPaused m then
        m\<lparr> jobs := jobs m @ [\<lparr> j_chunk = c, j_pass = p, j_attempts = 0,
                                j_controller = None, j_state = Returning \<rparr>] \<rparr>
      else
        uploadChunk_call e j
          (m\<lparr> executingChunks := insert (index (chunks m ! c)) (executingChunks m),
               jobs := jobs m @ [\<lparr> j_chunk = c, j_pass = p, j_attempts = 1,
                                 j_controller = None, j_state = Returning \<rparr>] \<rparr>))"

text \<open>What a caller does when its call of \<^verbatim>\<open>startUpload\<close> or \<^verbatim>\<open>resumeUpload\<close> ends.\<close>

definition callerThrew :: "error \<Rightarrow> task \<Rightarrow> task" where
  "callerThrew x m = m\<lparr> isUploading := False, returned := returned m @ [Inl x] \<rparr>"

definition callerReturned :: "string option \<Rightarrow> task \<Rightarrow> task" where
  "callerReturned r m = m\<lparr> isUploading := False, returned := returned m @ [Inr r] \<rparr>"

text \<open>
  \<^verbatim>\<open>completeUpload()\<close> up to its \<^verbatim>\<open>fetch\<close>: the two guards, then the request; the caller
  waits for the response.
\<close>

definition completeUpload_call :: "task \<Rightarrow> task" where
  "completeUpload_call m =
     (if uploadSession m = None then callerThrew NoSession m
      else if isPaused m then callerThrew PausedCannotComplete m
      else m\<lparr> requests := requests m @ [CompleteRequest], completing := completing m + 1 \<rparr>)"

text \<open>
  The end of a pass. \<^verbatim>\<open>startUpload\<close> goes on to \<^verbatim>\<open>completeUpload()\<close>; \<^verbatim>\<open>resumeUpload\<close> does
  so when \<^verbatim>\<open>uploadedChunks.value.length === totalChunks.value\<close> and otherwise returns
  \<^verbatim>\<open>null\<close>. Both catch an exception of the pass, clear \<^verbatim>\<open>isUploading\<close> and throw it again.
\<close>

definition passReturned :: "nat \<Rightarrow> task \<Rightarrow> task" where
  "passReturned p m =
     (let m1 = setPass p (\<lambda>q. q\<lparr> control := Finished \<rparr>) m in
      case caller (passes m ! p) of
        ByStartUpload \<Rightarrow> completeUpload_call m1
      | ByResumeUpload \<Rightarrow>
          if length (uploadedChunks m1) = length (chunks m1) then completeUpload_call m1
          else callerReturned None m1)"

definition passThrew :: "nat \<Rightarrow> error \<Rightarrow> task \<Rightarrow> task" where
  "passThrew p x m = callerThrew x (setPass p (\<lambda>q. q\<lparr> control := Failed x \<rparr>) m)"

text \<open>
  \<^verbatim>\<open>await Promise.allSettled(executing)\<close>: a settled promise has spliced itself from
  \<^verbatim>\<open>executing\<close>, so the pass returns once the array is empty.
\<close>

definition awaitAllSettled :: "nat \<Rightarrow> task \<Rightarrow> task" where
  "awaitAllSettled p m =
     (if executing (passes m ! p) = [] then passReturned p m
      else setPass p (\<lambda>q. q\<lparr> control := Settling \<rparr>) m)"

text \<open>
  The loop \<^verbatim>\<open>for (const chunk of pendingChunks)\<close> of pass \<open>p\<close>, run from its head over the
  chunks not reached yet until the pass suspends: \<^verbatim>\<open>break\<close> when paused; else call
  \<^verbatim>\<open>uploadSingleChunk\<close>, push its promise, and wait in \<^verbatim>\<open>Promise.race\<close> when
  \<^verbatim>\<open>executing.length >= concurrent\<close>.
\<close>

fun admitLoop :: "env \<Rightarrow> nat \<Rightarrow> nat list \<Rightarrow> task \<Rightarrow> task" where
  "admitLoop e p [] m = awaitAllSettled p (setPass p (\<lambda>q. q\<lparr> pendingChunks := [] \<rparr>) m)"
| "admitLoop e p (c # cs) m =
     (if isPaused m then
        awaitAllSettled p (setPass p (\<lambda>q. q\<lparr> pendingChunks := c # cs \<rparr>) m)
      else
        let m1 = uploadSingleChunk_call e p c m;
            m2 = setPass p (\<lambda>q. q\<lparr> executing := executing q @ [length (jobs m)] \<rparr>) m1
        in if length (executing (passes m2 ! p)) \<ge> concurrent e
           then setPass p (\<lambda>q. q\<lparr> pendingChunks := cs, control := Racing \<rparr>) m2
           else admitLoop e p cs m2)"

text \<open>
  \<^verbatim>\<open>uploadChunksConcurrently()\<close> from its first line to its first suspension:
  \<^verbatim>\<open>pendingChunks\<close> are the chunks that are not uploaded and whose index is not in
  \<^verbatim>\<open>executingChunks\<close>.
\<close>

definition uploadChunksConcurrently :: "env \<Rightarrow> caller \<Rightarrow> task \<Rightarrow> task" where
  "uploadChunksConcurrently e who m =
     (let pending = filter (\<lambda>c. index (chunks m ! c) \<notin> executingChunks m) (remainingChunks m);
          p = length (passes m)
      in admitLoop e p pending
           (m\<lparr> passes := passes m @ [\<lparr> pendingChunks = pending, executing = [],
                                       control = Racing, caller = who \<rparr>] \<rparr>))"

text \<open>
  The handlers \<^verbatim>\<open>.then(...)\<close> and \<^verbatim>\<open>.catch(...)\<close> of a pushed promise: both splice the promise
  from \<^verbatim>\<open>executing\<close>; the second throws the error again unless the upload is paused.
  Then the pass that admitted the job resumes: from \<^verbatim>\<open>Promise.race\<close> into the next
  iteration of its loop (or, if the race rejects, into the \<^verbatim>\<open>catch\<close> around it, which
  breaks when paused and throws otherwise), or it looks again whether all have settled.
\<close>

definition spliceJob :: "nat \<Rightarrow> task \<Rightarrow> task" where
  "spliceJob j m =
     setPass (j_pass (jobs m ! j)) (\<lambda>q. q\<lparr> executing := remove1 j (executing q) \<rparr>)
       (setJob j (\<lambda>b. b\<lparr> j_state := Settled \<rparr>) m)"

definition raceResolved :: "env \<Rightarrow> nat \<Rightarrow> task \<Rightarrow> task" where
  "raceResolved e p m =
     (case control (passes m ! p) of
        Racing \<Rightarrow> admitLoop e p (pendingChunks (passes m ! p)) m
      | Settling \<Rightarrow> awaitAllSettled p m
      | _ \<Rightarrow> m)"

definition raceRejected :: "nat \<Rightarrow> error \<Rightarrow> task \<Rightarrow> task" where
  "raceRejected p x m =
     (case control (passes m ! p) of
        Racing \<Rightarrow> if isPaused m then awaitAllSettled p m else passThrew p x m
      | Settling \<Rightarrow> awaitAllSettled p m
      | _ \<Rightarrow> m)"

definition promiseResolved :: "env \<Rightarrow> nat \<Rightarrow> task \<Rightarrow> task" where
  "promiseResolved e j m = raceResolved e (j_pass (jobs m ! j)) (spliceJob j m)"

definition promiseRejected :: "env \<Rightarrow> nat \<Rightarrow> error \<Rightarrow> task \<Rightarrow> task" where
  "promiseRejected e j x m =
     (if isPaused m then raceResolved e (j_pass (jobs m ! j)) (spliceJob j m)
      else raceRejected (j_pass (jobs m ! j)) x (spliceJob j m))"

text \<open>
  The rest of \<^verbatim>\<open>uploadSingleChunk\<close> once \<^verbatim>\<open>await uploadChunk(chunk)\<close> is over. Its \<^verbatim>\<open>finally\<close>
  clause deletes the chunk's index from \<^verbatim>\<open>executingChunks\<close>.
  \<^item> \<^verbatim>\<open>uploadChunk\<close> resolved with \<^verbatim>\<open>true\<close>: the loop ends and the activation returns.
  \<^item> \<^verbatim>\<open>uploadChunk\<close> rejected: the \<^verbatim>\<open>await\<close> throws inside the \<^verbatim>\<open>try\<close> block of
    \<^verbatim>\<open>uploadSingleChunk\<close>, which leaves the retry loop; the \<^verbatim>\<open>catch\<close> clause returns when
    paused and the message marks a cancellation, and throws the error again otherwise.
  \<^item> \<^verbatim>\<open>uploadChunk\<close> returned \<^verbatim>\<open>false\<close>: when \<^verbatim>\<open>attempts < retryTimes\<close> and not paused the
    activation waits \<^verbatim>\<open>1000 * attempts\<close> ms; else the loop ends, and
    \<^verbatim>\<open>if (!success && !isPaused.value)\<close> throws.
  \<^item> the wait is over: the loop condition is evaluated again; a further attempt
    increments \<^verbatim>\<open>attempts\<close> and calls \<^verbatim>\<open>uploadChunk\<close>.
\<close>

definition finallyDelete :: "nat \<Rightarrow> task \<Rightarrow> task" where
  "finallyDelete j m =
     m\<lparr> executingChunks := executingChunks m - {index (chunks m ! j_chunk (jobs m ! j))} \<rparr>"

definition uploadResolved :: "env \<Rightarrow> nat \<Rightarrow> task \<Rightarrow> task" where
  "uploadResolved e j m = promiseResolved e j (finallyDelete j m)"

definition uploadRejected :: "env \<Rightarrow> nat \<Rightarrow> error \<Rightarrow> task \<Rightarrow> task" where
  "uploadRejected e j x m =
     (if isPaused m \<and> mentionsCancel x then promiseResolved e j (finallyDelete j m)
      else promiseRejected e j x (finallyDelete j m))"

definition retryLoopExit :: "env \<Rightarrow> nat \<Rightarrow> task \<Rightarrow> task" where
  "retryLoopExit e j m =
     (if \<not> isPaused m then uploadRejected e j RetriesExhausted m
      else promiseResolved e j (finallyDelete j m))"

definition uploadReturnedFalse :: "env \<Rightarrow> nat \<Rightarrow> task \<Rightarrow> task" where
  "uploadReturnedFalse e j m =
     (if j_attempts (jobs m ! j) < retryTimes e \<and> \<not> isPaused m then
        setJob j (\<lambda>b. b\<lparr> j_state := Delaying (1000 * j_attempts b) \<rparr>) m
      else retryLoopExit e j m)"

definition delayElapsed :: "env \<Rightarrow> nat \<Rightarrow> task \<Rightarrow> task" where
  "delayElapsed e j m =
     (if j_attempts (jobs m ! j) < retryTimes e \<and> \<not> isPaused m then
        uploadChunk_call e j (setJob j (\<lambda>b. b\<lparr> j_attempts := j_attempts b + 1 \<rparr>) m)
      else retryLoopExit e j m)"

text \<open>
  Once the running handler has returned, the activations whose \<^verbatim>\<open>await\<close> is already
  decided resume, in the order of their job numbers.
\<close>

definition deliver :: "env \<Rightarrow> task \<Rightarrow> nat \<Rightarrow> task" where
  "deliver e m j =
     (if j < length (jobs m) then
        case j_state (jobs m ! j) of
          Returning \<Rightarrow> promiseResolved e j m
        | Rejecting x \<Rightarrow> uploadRejected e j x m
        | ReturnedFalse \<Rightarrow> uploadReturnedFalse e j m
        | _ \<Rightarrow> m
      else m)"

definition flush :: "env \<Rightarrow> task \<Rightarrow> task" where
  "flush e m = foldl (deliver e) m [0 ..< length (jobs m)]"

subsection \<open>Pause and resume\<close>

text \<open>
  \<^verbatim>\<open>controller.abort()\<close> on the controller \<open>k\<close>: nothing when its signal is already aborted;
  else the listener that \<^verbatim>\<open>uploadChunk\<close> registered on the signal runs, if the request of
  that call is still in flight: \<^verbatim>\<open>clearTimeout(timeoutId); xhr.abort(); reject(...)\<close>, where
  \<^verbatim>\<open>xhr.abort()\<close> dispatches the XHR's abort event, whose listener rejects first.
\<close>

definition abort :: "nat \<Rightarrow> task \<Rightarrow> task" where
  "abort k m =
     (if k \<in> aborted m then m
      else m\<lparr> aborted := insert k (aborted m),
              jobs := map (\<lambda>b. if j_controller b = Some k \<and> j_state b = Uploading
                                 then b\<lparr> j_state := Rejecting (firstReject [RequestAborted, UploadCancelled]) \<rparr>
                                 else b) (jobs m) \<rparr>)"

text \<open>\<^verbatim>\<open>chunk.abortController?.signal.aborted\<close>.\<close>

definition signalAborted :: "nat option \<Rightarrow> task \<Rightarrow> bool" where
  "signalAborted ko m = (case ko of None \<Rightarrow> False | Some k \<Rightarrow> k \<in> aborted m)"

text \<open>
  \<^verbatim>\<open>pauseUpload()\<close>: \<^verbatim>\<open>isPaused.value = true\<close>, then for each chunk
  \<^verbatim>\<open>if (chunk.abortController && !chunk.uploaded && chunk.progress > 0)\<close> abort and reset
  the progress.
\<close>

definition pauseChunk :: "nat \<Rightarrow> task \<Rightarrow> task" where
  "pauseChunk c m =
     (let ch = chunks m ! c in
      case abortController ch of
        None \<Rightarrow> m
      | Some k \<Rightarrow>
          if \<not> uploaded ch \<and> progress ch > 0
          then setChunk c (\<lambda>ch. ch\<lparr> progress := 0 \<rparr>) (abort k m)
          else m)"

definition pauseUpload :: "task \<Rightarrow> task" where
  "pauseUpload m = fold pauseChunk [0 ..< length (chunks m)] (m\<lparr> isPaused := True \<rparr>)"

text \<open>
  \<^verbatim>\<open>resumeUpload()\<close> up to the first suspension of the pass it starts: the guard, the two
  flags, \<^verbatim>\<open>executingChunks.value.clear()\<close>, the reset of every chunk with
  \<^verbatim>\<open>!chunk.uploaded && chunk.progress > 0 && chunk.progress < 100\<close>, and
  \<^verbatim>\<open>uploadChunksConcurrently()\<close>.
\<close>

definition resetInterrupted :: "nat \<Rightarrow> task \<Rightarrow> task" where
  "resetInterrupted c m =
     (let ch = chunks m ! c in
      if \<not> uploaded ch \<and> progress ch > 0 \<and> progress ch < 100
      then setChunk c (\<lambda>ch. ch\<lparr> progress := 0, abortController := None \<rparr>) m
      else m)"

definition resumeUpload :: "env \<Rightarrow> task \<Rightarrow> task" where
  "resumeUpload e m =
     (if currentFile m = None \<or> isCompleted m then
        m\<lparr> returned := returned m @ [Inl NothingToResume] \<rparr>
      else
        uploadChunksConcurrently e ByResumeUpload
          (fold resetInterrupted [0 ..< length (chunks m)]
             (m\<lparr> isPaused := False, isUploading := True, executingChunks := {} \<rparr>)))"

subsection \<open>Session reconciler and the start of an upload\<close>

text \<open>A response of the backend: \<open>Unreachable\<close> when \<^verbatim>\<open>fetch\<close> rejects or \<^verbatim>\<open>response.ok\<close> is false.\<close>

datatype 'a fetched = Unreachable | Response 'a

record S3CheckUploadResponse =
  fileExists :: bool
  isComplete :: bool
  url :: "string option"
  session :: "S3UploadSession option"

record S3InitializeResponse =
  init_success :: bool
  init_session :: "S3UploadSession option"

datatype complete_result = CompleteOk "string option" | CompleteUnreachable | CompleteRefusedByBackend

text \<open>\<^verbatim>\<open>x || null\<close> for an optional string: the empty string is falsy.\<close>

definition orNull :: "string option \<Rightarrow> string option" where
  "orNull x = (case x of None \<Rightarrow> None | Some u \<Rightarrow> if u = [] then None else Some u)"

text \<open>
  The call \<^verbatim>\<open>createChunksAndMarkUploaded(currentFile.value, result.session)\<close> that
  \<^verbatim>\<open>checkUploadStatus\<close> makes without \<^verbatim>\<open>await\<close>. The callee suspends at the hash of its
  first chunk, so its assignment to \<^verbatim>\<open>chunks.value\<close> happens after the caller has gone on;
  only for a file without chunks does it run to its end at once. \<open>markingDone\<close> is the
  moment the oldest such call finishes.
\<close>

definition spawnMarking :: "env \<Rightarrow> nat \<Rightarrow> S3UploadSession \<Rightarrow> task \<Rightarrow> task" where
  "spawnMarking e fileSize s m =
     (if totalChunksOf (chunkSize e) fileSize = 0
      then updateTotalProgress (m\<lparr> chunks := [] \<rparr>)
      else m\<lparr> deferred := deferred m @ [createChunksAndMarkUploaded (chunkSize e) fileSize s] \<rparr>)"

definition markingDone :: "task \<Rightarrow> task" where
  "markingDone m =
     (case deferred m of
        [] \<Rightarrow> m
      | cs # rest \<Rightarrow> updateTotalProgress (m\<lparr> chunks := cs, deferred := rest \<rparr>))"

text \<open>
  \<^verbatim>\<open>checkUploadStatus()\<close>, given the response of the backend to the check request. The
  result is the value returned (\<open>Inr\<close>) or the error thrown (\<open>Inl\<close>).
\<close>

definition checkUploadStatus ::
    "env \<Rightarrow> S3CheckUploadResponse fetched \<Rightarrow> task \<Rightarrow> (error + S3CheckUploadResponse) \<times> task" where
  "checkUploadStatus e resp m =
     (case currentFile m of
        None \<Rightarrow> (Inl NoFileOrHash, m)
      | Some fileSize \<Rightarrow>
          if fileHash m = [] then (Inl NoFileOrHash, m)
          else
            let m1 = m\<lparr> isCheckingUpload := True, requests := requests m @ [CheckRequest] \<rparr> in
            case resp of
              Unreachable \<Rightarrow> (Inl FetchFailed, m1\<lparr> isCheckingUpload := False \<rparr>)
            | Response r \<Rightarrow>
                if fileExists r \<and> isComplete r then
                  (Inr r, m1\<lparr> isSecondTransfer := True, isCompleted := True,
                              isCheckingUpload := False \<rparr>)
                else
                  (case session r of
                     None \<Rightarrow> (Inr r, m1\<lparr> isCheckingUpload := False \<rparr>)
                   | Some s \<Rightarrow>
                       (Inr r,
                        (spawnMarking e fileSize s
                           (m1\<lparr> uploadSession := Some s,
                                resumeInfo := Some (orZero (session_progress s),
                                                    session_totalChunks s,
                                                    orZero (uploadedParts s)) \<rparr>))
                          \<lparr> isCheckingUpload := False \<rparr>)))"

text \<open>\<^verbatim>\<open>initializeUpload()\<close>, given the response to the initialize request.\<close>

definition initializeUpload ::
    "S3InitializeResponse fetched \<Rightarrow> task \<Rightarrow> (error + S3UploadSession option) \<times> task" where
  "initializeUpload resp m =
     (if currentFile m = None \<or> fileHash m = [] then (Inl NoFileOrHash, m)
      else
        let m1 = m\<lparr> isInitializing := True, requests := requests m @ [InitializeRequest] \<rparr> in
        case resp of
          Unreachable \<Rightarrow> (Inl FetchFailed, m1\<lparr> isInitializing := False \<rparr>)
        | Response r \<Rightarrow>
            if \<not> init_success r then (Inl InitRefused, m1\<lparr> isInitializing := False \<rparr>)
            else (Inr (init_session r), m1\<lparr> isInitializing := False \<rparr>))"

text \<open>
  \<^verbatim>\<open>startUpload()\<close> up to the point where it returns, throws, or waits for the backend or
  for the pass it started, given the responses to its check and initialize requests (the
  second is read only when that request is made).
\<close>

definition startUpload ::
    "env \<Rightarrow> S3CheckUploadResponse fetched \<Rightarrow> S3InitializeResponse fetched \<Rightarrow> task \<Rightarrow> task" where
  "startUpload e check init m =
     (case currentFile m of
        None \<Rightarrow> m\<lparr> returned := returned m @ [Inl NoFile] \<rparr>
      | Some fileSize \<Rightarrow>
          if fileHash m = [] then m\<lparr> returned := returned m @ [Inl NoHash] \<rparr>
          else
            let m1 = m\<lparr> speedInfo := fst resetNetworkStats,
                         networkStats := (snd resetNetworkStats)\<lparr> totalBytes := fileSize \<rparr>,
                         isUploading := True, isCompleted := False,
                         isPaused := False, isSecondTransfer := False \<rparr>
            in case checkUploadStatus e check m1 of
                 (Inl x, m2) \<Rightarrow> callerThrew x m2
               | (Inr r, m2) \<Rightarrow>
                   if fileExists r \<and> isComplete r then
                     callerReturned (orNull (url r))
                       (m2\<lparr> isCompleted := True, isSecondTransfer := True \<rparr>)
                   else
                     (case (if uploadSession m2 = None
                            then (case initializeUpload init m2 of
                                    (Inl x, m3) \<Rightarrow> (Some x, m3)
                                  | (Inr s, m3) \<Rightarrow>
                                      (None, m3\<lparr> uploadSession := s,
                                                  chunks := createChunks (chunkSize e) fileSize \<rparr>))
                            else (None, m2)) of
                        (Some x, m3) \<Rightarrow> callerThrew x m3
                      | (None, m3) \<Rightarrow>
                          let m4 = updateTotalProgress m3 in
                          if length (uploadedChunks m4) = length (chunks m4)
                          then completeUpload_call m4
                          else uploadChunksConcurrently e ByStartUpload m4))"

text \<open>\<^verbatim>\<open>reset()\<close>, and the state after a file of the given size and hash is chosen.\<close>

definition reset :: task where
  "reset =
     \<lparr> isUploading = False, isPaused = False, isCompleted = False, isCheckingUpload = False,
       isInitializing = False, isSecondTransfer = False, currentFile = None, fileHash = [],
       chunks = [], uploadSession = None,
       uploadProgress = \<lparr> loaded = 0, total = 0, percentage = 0 \<rparr>,
       speedInfo = fst resetNetworkStats, networkStats = snd resetNetworkStats,
       resumeInfo = None, executingChunks = {}, deferred = [], requests = [], jobs = [],
       passes = [], controllers = 0, aborted = {}, completing = 0, returned = [],
       acknowledged = [] \<rparr>"

definition selected :: "nat \<Rightarrow> string \<Rightarrow> task" where
  "selected fileSize h = reset\<lparr> currentFile := Some fileSize, fileHash := h \<rparr>"

subsection \<open>The hook as a machine\<close>

text \<open>
  Each event is one task of the JavaScript event loop, run to completion:
  \<^item> \<open>StartUpload check init\<close>, \<open>ResumeUpload\<close>, \<open>PauseUpload\<close>: calls of the hook's
    functions (\<^verbatim>\<open>startUpload\<close> with the backend's answers, taken without interleaving);
  \<^item> \<open>XhrProgress j loaded total now\<close>: an upload progress event with
    \<^verbatim>\<open>lengthComputable\<close> of the request of job \<open>j\<close>, at clock reading \<open>now\<close>;
  \<^item> \<open>XhrLoad j\<close>: the request of job \<open>j\<close> loads with a 2xx status and a body that parses
    and has \<^verbatim>\<open>success\<close>; \<open>XhrFailed j x\<close>: it loads otherwise, or its error event fires;
  \<^item> \<open>XhrTimeout j\<close>: the timer of the transporter of job \<open>j\<close> fires;
  \<^item> \<open>DelayElapsed j\<close>: the back-off timer of job \<open>j\<close> fires;
  \<^item> \<open>CompleteResponse r\<close>: the backend answers the oldest pending complete request.
  An event for a job that is not in the matching state does nothing. \<^verbatim>\<open>reset\<close>,
  \<^verbatim>\<open>cancelUpload\<close> and \<open>markingDone\<close> are not events: they end or replace the chunk list
  the jobs refer to.
\<close>

datatype event =
    StartUpload "S3CheckUploadResponse fetched" "S3InitializeResponse fetched"
  | ResumeUpload
  | PauseUpload
  | XhrProgress nat nat nat int
  | XhrLoad nat
  | XhrFailed nat error
  | XhrTimeout nat
  | DelayElapsed nat
  | CompleteResponse complete_result

definition uploading :: "task \<Rightarrow> nat \<Rightarrow> bool" where
  "uploading m j = (j < length (jobs m) \<and> j_state (jobs m ! j) = Uploading)"

definition delaying :: "task \<Rightarrow> nat \<Rightarrow> bool" where
  "delaying m j =
     (j < length (jobs m) \<and> (case j_state (jobs m ! j) of Delaying ms \<Rightarrow> True | _ \<Rightarrow> False))"

text \<open>The listener of \<^verbatim>\<open>xhr.upload\<close>'s progress event.\<close>

definition onProgress :: "nat \<Rightarrow> nat \<Rightarrow> nat \<Rightarrow> int \<Rightarrow> task \<Rightarrow> task" where
  "onProgress j l t now m =
     (let c = j_chunk (jobs m ! j) in
      if signalAborted (abortController (chunks m ! c)) m then m
      else
        let m1 = setChunk c (\<lambda>ch. ch\<lparr> progress := roundPercent l t \<rparr>) m;
            tr = updateNetworkStats now (uploadedSize m1 + l) (speedInfo m1, networkStats m1)
        in updateTotalProgress (m1\<lparr> speedInfo := fst tr, networkStats := snd tr \<rparr>))"

text \<open>The listener of the XHR's load event, for a successful response.\<close>

definition onLoad :: "env \<Rightarrow> nat \<Rightarrow> task \<Rightarrow> task" where
  "onLoad e j m =
     uploadResolved e j
       (updateTotalProgress
          (setChunk (j_chunk (jobs m ! j)) (\<lambda>ch. ch\<lparr> uploaded := True, progress := 100 \<rparr>)
             (m\<lparr> acknowledged :=
                    acknowledged m @ [index (chunks m ! j_chunk (jobs m ! j))] \<rparr>)))"

text \<open>
  The callback of the transporter's timer:
  \<^verbatim>\<open>if (!chunk.abortController?.signal.aborted) { xhr.abort(); reject(...) }\<close>.
\<close>

definition onTimeout :: "env \<Rightarrow> nat \<Rightarrow> task \<Rightarrow> task" where
  "onTimeout e j m =
     (if signalAborted (abortController (chunks m ! j_chunk (jobs m ! j))) m then m
      else uploadRejected e j (firstReject [RequestAborted, UploadTimeout]) m)"

definition onCompleteResponse :: "complete_result \<Rightarrow> task \<Rightarrow> task" where
  "onCompleteResponse r m =
     (if completing m = 0 then m
      else
        let m1 = m\<lparr> completing := completing m - 1 \<rparr> in
        case r of
          CompleteOk u \<Rightarrow> callerReturned (orNull u) (m1\<lparr> isCompleted := True \<rparr>)
        | CompleteUnreachable \<Rightarrow> callerThrew FetchFailed m1
        | CompleteRefusedByBackend \<Rightarrow> callerThrew CompleteRefused m1)"

fun handle :: "env \<Rightarrow> event \<Rightarrow> task \<Rightarrow> task" where
  "handle e (StartUpload check init) m = startUpload e check init m"
| "handle e ResumeUpload m = resumeUpload e m"
| "handle e PauseUpload m = pauseUpload m"
| "handle e (XhrProgress j l t now) m = (if uploading m j then onProgress j l t now m else m)"
| "handle e (XhrLoad j) m = (if uploading m j then onLoad e j m else m)"
| "handle e (XhrFailed j x) m = (if uploading m j then uploadRejected e j x m else m)"
| "handle e (XhrTimeout j) m = (if uploading m j then onTimeout e j m else m)"
| "handle e (DelayElapsed j) m = (if delaying m j then delayElapsed e j m else m)"
| "handle e (CompleteResponse r) m = onCompleteResponse r m"

definition step :: "env \<Rightarrow> task \<Rightarrow> event \<Rightarrow> task" where
  "step e m ev = flush e (handle e ev m)"

definition run :: "env \<Rightarrow> event list \<Rightarrow> task \<Rightarrow> task" where
  "run e evs m = foldl (step e) m evs"

text \<open>The transporters in flight: the jobs whose request is sent and not settled.\<close>

definition inFlight :: "task \<Rightarrow> nat list" where
  "inFlight m = filter (\<lambda>j. j_state (jobs m ! j) = Uploading) [0 ..< length (jobs m)]"

section \<open>The local hook\<close>

text \<open>
  \<^verbatim>\<open>useUpload\<close> of \<^verbatim>\<open>use-file-upload.ts\<close>, modelled like the S3 hook. It has no
  \<^verbatim>\<open>executingChunks\<close>, no upload session and no abort controller on its chunks; jobs and
  passes are the records used above (with \<open>j_controller = None\<close>). \<^verbatim>\<open>checkUploadStatus\<close>
  and \<^verbatim>\<open>startUpload\<close> can replace \<^verbatim>\<open>chunks.value\<close> by new chunk objects while jobs still
  hold the old ones, so the chunk objects live in a store, \<open>heap_local\<close>, and
  \<open>chunks_local\<close> and \<open>j_chunk\<close> are addresses in it. The per-chunk speed figures
  (\<^verbatim>\<open>uploadStartTime\<close>, \<^verbatim>\<open>uploadSpeed\<close>, \<^verbatim>\<open>chunkSpeeds\<close>) are only logged and are left out,
  as is the computation of the file hash, which is given.
\<close>

datatype request_local = CheckRequest_local | ChunkRequest_local nat | MergeRequest_local

record task_local =
  isUploading_local :: bool
  isPaused_local :: bool
  isCompleted_local :: bool
  isCheckingUpload_local :: bool
  isSecondTransfer_local :: bool
  currentFile_local :: "nat option"
  fileHash_local :: string
  heap_local :: "ChunkInfo list"
  chunks_local :: "nat list"
  uploadProgress_local :: S3UploadProgress
  speedInfo_local :: S3SpeedInfo
  networkStats_local :: S3NetworkStats
  resumeInfo_local :: "(nat \<times> nat \<times> nat) option"
  requests_local :: "request_local list"
  jobs_local :: "job list"
  passes_local :: "pass list"
  merging_local :: nat
  returned_local :: "(error + string option) list"
  acknowledged_local :: "nat list"

definition setChunk_local :: "nat \<Rightarrow> (ChunkInfo \<Rightarrow> ChunkInfo) \<Rightarrow> task_local \<Rightarrow> task_local" where
  "setChunk_local a f m = m\<lparr> heap_local := (heap_local m)[a := f (heap_local m ! a)] \<rparr>"

definition setJob_local :: "nat \<Rightarrow> (job \<Rightarrow> job) \<Rightarrow> task_local \<Rightarrow> task_local" where
  "setJob_local j f m = m\<lparr> jobs_local := (jobs_local m)[j := f (jobs_local m ! j)] \<rparr>"

definition setPass_local :: "nat \<Rightarrow> (pass \<Rightarrow> pass) \<Rightarrow> task_local \<Rightarrow> task_local" where
  "setPass_local p f m = m\<lparr> passes_local := (passes_local m)[p := f (passes_local m ! p)] \<rparr>"

text \<open>\<^verbatim>\<open>chunks.value = fileChunks\<close> for a list of new chunk objects.\<close>

definition assignChunks_local :: "ChunkInfo list \<Rightarrow> task_local \<Rightarrow> task_local" where
  "assignChunks_local cs m =
     m\<lparr> heap_local := heap_local m @ cs,
        chunks_local := [length (heap_local m) ..< length (heap_local m) + length cs] \<rparr>"

text \<open>The computed properties and \<^verbatim>\<open>updateTotalProgress()\<close> of the local hook.\<close>

definition uploadedChunks_local :: "task_local \<Rightarrow> nat list" where
  "uploadedChunks_local m = filter (\<lambda>a. uploaded_local (heap_local m ! a)) (chunks_local m)"

definition remainingChunks_local :: "task_local \<Rightarrow> nat list" where
  "remainingChunks_local m =
     filter (\<lambda>a. \<not> uploaded_local (heap_local m ! a)) (chunks_local m)"

definition uploadedSize_local :: "task_local \<Rightarrow> nat" where
  "uploadedSize_local m =
     sum_list (map (\<lambda>a. span_local (heap_local m ! a)) (uploadedChunks_local m))"

definition updateTotalProgress_local :: "task_local \<Rightarrow> task_local" where
  "updateTotalProgress_local m =
     (case currentFile_local m of
        None \<Rightarrow> m
      | Some fileSize \<Rightarrow>
          m\<lparr> uploadProgress_local :=
               \<lparr> loaded = uploadedSize_local m, total = fileSize,
                 percentage =
                   (if fileSize > 0 then roundPercent (uploadedSize_local m) fileSize
                    else 0) \<rparr> \<rparr>)"

text \<open>
  The synchronous part of the local \<^verbatim>\<open>uploadChunk(chunk)\<close> for job \<open>j\<close>: the \<^verbatim>\<open>try\<close> block
  sets \<^verbatim>\<open>chunk.progress = 1\<close>, creates an \<^verbatim>\<open>AbortController\<close> that no request is given, arms
  a timer of \<^verbatim>\<open>30_000\<close> ms that aborts that controller, and sends the request; the \<^verbatim>\<open>catch\<close>
  clause is that of the S3 hook.
\<close>

definition uploadChunk_call_local :: "env \<Rightarrow> nat \<Rightarrow> task_local \<Rightarrow> task_local" where
  "uploadChunk_call_local e j m =
     (let a = j_chunk (jobs_local m ! j) in
      if tryThrows e (index_local (heap_local m ! a)) (j_attempts (jobs_local m ! j)) then
        setJob_local j (\<lambda>b. b\<lparr> j_state := ReturnedFalse \<rparr>)
          (setChunk_local a
             (\<lambda>ch. ch\<lparr> retryCount_local := retryCount_local ch + 1, progress_local := 0 \<rparr>) m)
      else
        setJob_local j (\<lambda>b. b\<lparr> j_state := Uploading \<rparr>)
          (setChunk_local a (\<lambda>ch. ch\<lparr> progress_local := 1 \<rparr>)
             (m\<lparr> requests_local :=
                    requests_local m @ [ChunkRequest_local (index_local (heap_local m ! a))] \<rparr>)))"

text \<open>The synchronous part of the local \<^verbatim>\<open>uploadSingleChunk(chunk)\<close>, called by pass \<open>p\<close>.\<close>

definition uploadSingleChunk_call_local :: "env \<Rightarrow> nat \<Rightarrow> nat \<Rightarrow> task_local \<Rightarrow> task_local" where
  "uploadSingleChunk_call_local e p a m =
     (let j = length (jobs_local m) in
      if isPaused_local m then
        m\<lparr> jobs_local := jobs_local m @ [\<lparr> j_chunk = a, j_pass = p, j_attempts = 0,
                                            j_controller = None, j_state = Returning \<rparr>] \<rparr>
      else
        uploadChunk_call_local e j
          (m\<lparr> jobs_local := jobs_local m @ [\<lparr> j_chunk = a, j_pass = p, j_attempts = 1,
                                               j_controller = None, j_state = Returning \<rparr>] \<rparr>))"

definition callerThrew_local :: "error \<Rightarrow> task_local \<Rightarrow> task_local" where
  "callerThrew_local x m =
     m\<lparr> isUploading_local := False, returned_local := returned_local m @ [Inl x] \<rparr>"

text \<open>\<^verbatim>\<open>mergeChunks()\<close> up to its \<^verbatim>\<open>fetch\<close>; the caller waits for the response.\<close>

definition mergeChunks_call_local :: "task_local \<Rightarrow> task_local" where
  "mergeChunks_call_local m =
     m\<lparr> requests_local := requests_local m @ [MergeRequest_local],
        merging_local := merging_local m + 1 \<rparr>"

text \<open>
  The end of a pass of the local hook: \<^verbatim>\<open>startUpload\<close> and \<^verbatim>\<open>resumeUpload\<close> both go on to
  \<^verbatim>\<open>mergeChunks()\<close>, and both catch an exception of the pass, clear \<^verbatim>\<open>isUploading\<close> and
  throw it again.
\<close>

definition passReturned_local :: "nat \<Rightarrow> task_local \<Rightarrow> task_local" where
  "passReturned_local p m =
     mergeChunks_call_local (setPass_local p (\<lambda>q. q\<lparr> control := Finished \<rparr>) m)"

definition passThrew_local :: "nat \<Rightarrow> error \<Rightarrow> task_local \<Rightarrow> task_local" where
  "passThrew_local p x m =
     callerThrew_local x (setPass_local p (\<lambda>q. q\<lparr> control := Failed x \<rparr>) m)"

text \<open>
  \<^verbatim>\<open>await Promise.all(executing)\<close>: every promise that resolved has spliced itself, and a
  rejection ends the pass at once, so the pass returns once the array is empty.
\<close>

definition awaitAll_local :: "nat \<Rightarrow> task_local \<Rightarrow> task_local" where
  "awaitAll_local p m =
     (if executing (passes_local m ! p) = [] then passReturned_local p m
      else setPass_local p (\<lambda>q. q\<lparr> control := Settling \<rparr>) m)"

text \<open>
  The loop of the local \<^verbatim>\<open>uploadChunksConcurrently\<close> from the chunk it has reached, as
  \<open>admitLoop\<close> above; the pushed promise is \<^verbatim>\<open>uploadSingleChunk(chunk).then(...)\<close>.
\<close>

fun admitLoop_local :: "env \<Rightarrow> nat \<Rightarrow> nat list \<Rightarrow> task_local \<Rightarrow> task_local" where
  "admitLoop_local e p [] m =
     awaitAll_local p (setPass_local p (\<lambda>q. q\<lparr> pendingChunks := [] \<rparr>) m)"
| "admitLoop_local e p (a # as) m =
     (if isPaused_local m then
        awaitAll_local p (setPass_local p (\<lambda>q. q\<lparr> pendingChunks := a # as \<rparr>) m)
      else
        let m1 = uploadSingleChunk_call_local e p a m;
            m2 = setPass_local p
                   (\<lambda>q. q\<lparr> executing := executing q @ [length (jobs_local m)] \<rparr>) m1
        in if length (executing (passes_local m2 ! p)) \<ge> concurrent e
           then setPass_local p (\<lambda>q. q\<lparr> pendingChunks := as, control := Racing \<rparr>) m2
           else admitLoop_local e p as m2)"

text \<open>
  The local \<^verbatim>\<open>uploadChunksConcurrently()\<close> to its first suspension:
  \<^verbatim>\<open>pendingChunks = [...remainingChunks.value]\<close>.
\<close>

definition uploadChunksConcurrently_local :: "env \<Rightarrow> caller \<Rightarrow> task_local \<Rightarrow> task_local" where
  "uploadChunksConcurrently_local e who m =
     (let pending = remainingChunks_local m; p = length (passes_local m)
      in admitLoop_local e p pending
           (m\<lparr> passes_local := passes_local m @ [\<lparr> pendingChunks = pending, executing = [],
                                                   control = Racing, caller = who \<rparr>] \<rparr>))"

text \<open>
  A pushed promise resolves: its \<^verbatim>\<open>then\<close> handler splices it, and the pass resumes from
  \<^verbatim>\<open>Promise.race\<close> into its loop, or \<^verbatim>\<open>Promise.all\<close> looks whether it is done. A pushed
  promise rejects: it stays in \<^verbatim>\<open>executing\<close>, and a pass that waits in \<^verbatim>\<open>Promise.race\<close> or
  \<^verbatim>\<open>Promise.all\<close> ends with the error.
\<close>

definition promiseResolved_local :: "env \<Rightarrow> nat \<Rightarrow> task_local \<Rightarrow> task_local" where
  "promiseResolved_local e j m =
     (let p = j_pass (jobs_local m ! j);
          m1 = setPass_local p (\<lambda>q. q\<lparr> executing := remove1 j (executing q) \<rparr>)
                 (setJob_local j (\<lambda>b. b\<lparr> j_state := Settled \<rparr>) m)
      in case control (passes_local m1 ! p) of
           Racing \<Rightarrow> admitLoop_local e p (pendingChunks (passes_local m1 ! p)) m1
         | Settling \<Rightarrow> awaitAll_local p m1
         | _ \<Rightarrow> m1)"

definition promiseRejected_local :: "nat \<Rightarrow> error \<Rightarrow> task_local \<Rightarrow> task_local" where
  "promiseRejected_local j x m =
     (let p = j_pass (jobs_local m ! j);
          m1 = setJob_local j (\<lambda>b. b\<lparr> j_state := Settled \<rparr>) m
      in case control (passes_local m1 ! p) of
           Racing \<Rightarrow> passThrew_local p x m1
         | Settling \<Rightarrow> passThrew_local p x m1
         | _ \<Rightarrow> m1)"

text \<open>
  The rest of the local \<^verbatim>\<open>uploadSingleChunk\<close>, which has no \<^verbatim>\<open>try\<close>: a rejection of
  \<^verbatim>\<open>uploadChunk\<close> leaves it as an exception; after \<^verbatim>\<open>false\<close> it waits whenever
  \<^verbatim>\<open>attempts < retryTimes\<close>; and it throws after its loop whenever \<^verbatim>\<open>success\<close> is false.
\<close>

definition uploadReturnedFalse_local :: "env \<Rightarrow> nat \<Rightarrow> task_local \<Rightarrow> task_local" where
  "uploadReturnedFalse_local e j m =
     (if j_attempts (jobs_local m ! j) < retryTimes e then
        setJob_local j (\<lambda>b. b\<lparr> j_state := Delaying (1000 * j_attempts b) \<rparr>) m
      else promiseRejected_local j RetriesExhausted m)"

definition delayElapsed_local :: "env \<Rightarrow> nat \<Rightarrow> task_local \<Rightarrow> task_local" where
  "delayElapsed_local e j m =
     (if j_attempts (jobs_local m ! j) < retryTimes e \<and> \<not> isPaused_local m then
        uploadChunk_call_local e j
          (setJob_local j (\<lambda>b. b\<lparr> j_attempts := j_attempts b + 1 \<rparr>) m)
      else promiseRejected_local j RetriesExhausted m)"

definition deliver_local :: "env \<Rightarrow> task_local \<Rightarrow> nat \<Rightarrow> task_local" where
  "deliver_local e m j =
     (if j < length (jobs_local m) then
        case j_state (jobs_local m ! j) of
          Returning \<Rightarrow> promiseResolved_local e j m
        | Rejecting x \<Rightarrow> promiseRejected_local j x m
        | ReturnedFalse \<Rightarrow> uploadReturnedFalse_local e j m
        | _ \<Rightarrow> m
      else m)"

definition flush_local :: "env \<Rightarrow> task_local \<Rightarrow> task_local" where
  "flush_local e m = foldl (deliver_local e) m [0 ..< length (jobs_local m)]"

text \<open>\<^verbatim>\<open>pauseUpload()\<close> and \<^verbatim>\<open>resumeUpload()\<close> of the local hook.\<close>

definition pauseUpload_local :: "task_local \<Rightarrow> task_local" where
  "pauseUpload_local m = m\<lparr> isPaused_local := True \<rparr>"

definition resumeUpload_local :: "env \<Rightarrow> task_local \<Rightarrow> task_local" where
  "resumeUpload_local e m =
     (if currentFile_local m = None \<or> isCompleted_local m then
        m\<lparr> returned_local := returned_local m @ [Inl NothingToResume] \<rparr>
      else
        uploadChunksConcurrently_local e ByResumeUpload
          (m\<lparr> isPaused_local := False, isUploading_local := True \<rparr>))"

text \<open>
  \<^verbatim>\<open>CheckUploadResponse\<close> (the fields the hook reads) and \<^verbatim>\<open>checkUploadStatus()\<close> of the local
  hook, which calls \<^verbatim>\<open>createChunksAndMarkUploaded\<close> when the response lists chunks.
\<close>

record CheckUploadResponse =
  fileExists_local :: bool
  isComplete_local :: bool
  url_local :: "string option"
  uploadedChunks_local_of :: "string list"
  resumeInfo_local_of :: "(nat \<times> nat \<times> nat) option"

definition checkUploadStatus_local ::
    "env \<Rightarrow> CheckUploadResponse fetched \<Rightarrow> task_local
       \<Rightarrow> (error + CheckUploadResponse) \<times> task_local" where
  "checkUploadStatus_local e resp m =
     (case currentFile_local m of
        None \<Rightarrow> (Inl NoFileOrHash, m)
      | Some fileSize \<Rightarrow>
          if fileHash_local m = [] then (Inl NoFileOrHash, m)
          else
            let m1 = m\<lparr> isCheckingUpload_local := True,
                         requests_local := requests_local m @ [CheckRequest_local] \<rparr> in
            case resp of
              Unreachable \<Rightarrow> (Inl FetchFailed, m1\<lparr> isCheckingUpload_local := False \<rparr>)
            | Response r \<Rightarrow>
                if fileExists_local r \<and> isComplete_local r then
                  (Inr r, m1\<lparr> isSecondTransfer_local := True, isCompleted_local := True,
                              isCheckingUpload_local := False \<rparr>)
                else if uploadedChunks_local_of r \<noteq> [] then
                  (Inr r,
                   (updateTotalProgress_local
                      (assignChunks_local
                         (createChunksAndMarkUploaded_local (chunkSize e) fileSize
                            (fileHash_local m) (uploadedChunks_local_of r))
                         (m1\<lparr> resumeInfo_local := resumeInfo_local_of r \<rparr>)))
                     \<lparr> isCheckingUpload_local := False \<rparr>)
                else (Inr r, m1\<lparr> isCheckingUpload_local := False \<rparr>))"

text \<open>
  \<^verbatim>\<open>startUpload()\<close> of the local hook, given the response to its check request, up to the
  point where it returns, throws, or waits for the merge or for the pass it started.
\<close>

definition startUpload_local :: "env \<Rightarrow> CheckUploadResponse fetched \<Rightarrow> task_local \<Rightarrow> task_local" where
  "startUpload_local e check m =
     (case currentFile_local m of
        None \<Rightarrow> m\<lparr> returned_local := returned_local m @ [Inl NoFile] \<rparr>
      | Some fileSize \<Rightarrow>
          if fileHash_local m = [] then m\<lparr> returned_local := returned_local m @ [Inl NoHash] \<rparr>
          else
            let m1 = m\<lparr> speedInfo_local := fst resetNetworkStats,
                         networkStats_local :=
                           (snd resetNetworkStats)\<lparr> totalBytes := fileSize \<rparr>,
                         isUploading_local := True, isCompleted_local := False,
                         isPaused_local := False, isSecondTransfer_local := False \<rparr>
            in case checkUploadStatus_local e check m1 of
                 (Inl x, m2) \<Rightarrow> callerThrew_local x m2
               | (Inr r, m2) \<Rightarrow>
                   if fileExists_local r \<and> isComplete_local r then
                     m2\<lparr> isCompleted_local := True, isUploading_local := False,
                         isSecondTransfer_local := True,
                         returned_local := returned_local m2 @ [Inr (orNull (url_local r))] \<rparr>
                   else
                     let m3 = (if chunks_local m2 = []
                               then assignChunks_local
                                      (createChunks_local (chunkSize e) fileSize
                                         (fileHash_local m2)) m2
                               else m2);
                         m4 = updateTotalProgress_local m3
                     in if length (uploadedChunks_local m4) = length (chunks_local m4)
                        then mergeChunks_call_local m4
                        else uploadChunksConcurrently_local e ByStartUpload m4)"

text \<open>\<^verbatim>\<open>reset()\<close> of the local hook, and the state after a file is chosen and hashed.\<close>

definition reset_local :: task_local where
  "reset_local =
     \<lparr> isUploading_local = False, isPaused_local = False, isCompleted_local = False,
       isCheckingUpload_local = False, isSecondTransfer_local = False,
       currentFile_local = None, fileHash_local = [], heap_local = [], chunks_local = [],
       uploadProgress_local = \<lparr> loaded = 0, total = 0, percentage = 0 \<rparr>,
       speedInfo_local = fst resetNetworkStats, networkStats_local = snd resetNetworkStats,
       resumeInfo_local = None, requests_local = [], jobs_local = [], passes_local = [],
       merging_local = 0, returned_local = [], acknowledged_local = [] \<rparr>"

definition selected_local :: "nat \<Rightarrow> string \<Rightarrow> task_local" where
  "selected_local fileSize h =
     reset_local\<lparr> currentFile_local := Some fileSize, fileHash_local := h \<rparr>"

text \<open>
  The events of the local hook, as those of the S3 hook. \<open>TimerFired_local j\<close> is the 30 s
  timer of the transporter of job \<open>j\<close>: its callback aborts a controller that nothing
  listens to. \<open>MergeResponse_local r\<close> answers the oldest pending merge request, with
  \<^verbatim>\<open>success\<close>, with a failure of the request, or without \<^verbatim>\<open>success\<close>.
\<close>

datatype event_local =
    StartUpload_local "CheckUploadResponse fetched"
  | ResumeUpload_local
  | PauseUpload_local
  | XhrProgress_local nat nat nat int
  | XhrLoad_local nat
  | XhrFailed_local nat error
  | TimerFired_local nat
  | DelayElapsed_local nat
  | MergeResponse_local complete_result

definition uploading_local :: "task_local \<Rightarrow> nat \<Rightarrow> bool" where
  "uploading_local m j = (j < length (jobs_local m) \<and> j_state (jobs_local m ! j) = Uploading)"

definition delaying_local :: "task_local \<Rightarrow> nat \<Rightarrow> bool" where
  "delaying_local m j =
     (j < length (jobs_local m)
      \<and> (case j_state (jobs_local m ! j) of Delaying ms \<Rightarrow> True | _ \<Rightarrow> False))"

definition onProgress_local :: "nat \<Rightarrow> nat \<Rightarrow> nat \<Rightarrow> int \<Rightarrow> task_local \<Rightarrow> task_local" where
  "onProgress_local j l t now m =
     (let m1 = setChunk_local (j_chunk (jobs_local m ! j))
                 (\<lambda>ch. ch\<lparr> progress_local := roundPercent l t \<rparr>) m;
          tr = updateNetworkStats now (uploadedSize_local m1 + l)
                 (speedInfo_local m1, networkStats_local m1)
      in updateTotalProgress_local
           (m1\<lparr> speedInfo_local := fst tr, networkStats_local := snd tr \<rparr>))"

definition onLoad_local :: "env \<Rightarrow> nat \<Rightarrow> task_local \<Rightarrow> task_local" where
  "onLoad_local e j m =
     promiseResolved_local e j
       (updateTotalProgress_local
          (setChunk_local (j_chunk (jobs_local m ! j))
             (\<lambda>ch. ch\<lparr> uploaded_local := True, progress_local := 100 \<rparr>)
             (m\<lparr> acknowledged_local :=
                    acknowledged_local m
                      @ [index_local (heap_local m ! j_chunk (jobs_local m ! j))] \<rparr>)))"

definition onMergeResponse_local :: "complete_result \<Rightarrow> task_local \<Rightarrow> task_local" where
  "onMergeResponse_local r m =
     (if merging_local m = 0 then m
      else
        let m1 = m\<lparr> merging_local := merging_local m - 1 \<rparr> in
        case r of
          CompleteOk u \<Rightarrow>
            m1\<lparr> isCompleted_local := True, isUploading_local := False,
                returned_local := returned_local m1 @ [Inr (orNull u)] \<rparr>
        | CompleteUnreachable \<Rightarrow> callerThrew_local FetchFailed m1
        | CompleteRefusedByBackend \<Rightarrow> callerThrew_local CompleteRefused m1)"

fun handle_local :: "env \<Rightarrow> event_local \<Rightarrow> task_local \<Rightarrow> task_local" where
  "handle_local e (StartUpload_local check) m = startUpload_local e check m"
| "handle_local e ResumeUpload_local m = resumeUpload_local e m"
| "handle_local e PauseUpload_local m = pauseUpload_local m"
| "handle_local e (XhrProgress_local j l t now) m =
     (if uploading_local m j then onProgress_local j l t now m else m)"
| "handle_local e (XhrLoad_local j) m = (if uploading_local m j then onLoad_local e j m else m)"
| "handle_local e (XhrFailed_local j x) m =
     (if uploading_local m j then promiseRejected_local j x m else m)"
| "handle_local e (TimerFired_local j) m = m"
| "handle_local e (DelayElapsed_local j) m =
     (if delaying_local m j then delayElapsed_local e j m else m)"
| "handle_local e (MergeResponse_local r) m = onMergeResponse_local r m"

definition step_local :: "env \<Rightarrow> task_local \<Rightarrow> event_local \<Rightarrow> task_local" where
  "step_local e m ev = flush_local e (handle_local e ev m)"

definition run_local :: "env \<Rightarrow> event_local list \<Rightarrow> task_local \<Rightarrow> task_local" where
  "run_local e evs m = foldl (step_local e) m evs"

section \<open>Notions used by the statements\<close>

text \<open>The transporters in flight that pass \<open>p\<close> admitted.\<close>

definition inFlightOf :: "nat \<Rightarrow> task \<Rightarrow> nat list" where
  "inFlightOf p m = filter (\<lambda>j. j_pass (jobs m ! j) = p) (inFlight m)"

text \<open>
  What the bound on a pass depends on: the arrays \<^verbatim>\<open>executing\<close> and, for each job, its pass
  and whether it has settled. The invariant: no array is longer than
  \<open>max 1 concurrent\<close>, and every job that has not settled is in the array of its pass.
\<close>

definition pool :: "task \<Rightarrow> nat list list \<times> (nat \<times> bool) list" where
  "pool m = (map executing (passes m), map (\<lambda>b. (j_pass b, j_state b = Settled)) (jobs m))"

definition pool_inv :: "env \<Rightarrow> nat list list \<times> (nat \<times> bool) list \<Rightarrow> bool" where
  "pool_inv e pl =
     ((\<forall>p < length (fst pl). length (fst pl ! p) \<le> max 1 (concurrent e))
    \<and> (\<forall>j < length (snd pl). \<not> snd (snd pl ! j) \<longrightarrow>
           fst (snd pl ! j) < length (fst pl) \<and> j \<in> set (fst pl ! fst (snd pl ! j))))"

definition pool_ok :: "env \<Rightarrow> task \<Rightarrow> bool" where
  "pool_ok e m = pool_inv e (pool m)"

text \<open>
  Scenarios: options with chunks of 5 bytes, three attempts and the given concurrency; a
  check response that reports nothing stored; an initialize response with a new session;
  a check response that reports the file stored and complete.
\<close>

definition options :: "nat \<Rightarrow> env" where
  "options n = \<lparr> chunkSize = 5, concurrent = n, retryTimes = 3, tryThrows = (\<lambda>c a. False) \<rparr>"

definition nothingStored :: "S3CheckUploadResponse fetched" where
  "nothingStored =
     Response \<lparr> fileExists = False, isComplete = False, url = None, session = None \<rparr>"

definition sessionCreated :: "S3InitializeResponse fetched" where
  "sessionCreated =
     Response \<lparr> init_success = True,
                init_session = Some \<lparr> session_totalChunks = 2, uploadedParts = None,
                                      session_progress = None, parts = None \<rparr> \<rparr>"

definition alreadyStored :: "S3CheckUploadResponse fetched" where
  "alreadyStored =
     Response \<lparr> fileExists = True, isComplete = True, url = Some ''u'', session = None \<rparr>"

text \<open>The same notions for the local hook.\<close>

definition inFlight_local :: "task_local \<Rightarrow> nat list" where
  "inFlight_local m =
     filter (\<lambda>j. j_state (jobs_local m ! j) = Uploading) [0 ..< length (jobs_local m)]"

definition inFlightOf_local :: "nat \<Rightarrow> task_local \<Rightarrow> nat list" where
  "inFlightOf_local p m = filter (\<lambda>j. j_pass (jobs_local m ! j) = p) (inFlight_local m)"

definition pool_local :: "task_local \<Rightarrow> nat list list \<times> (nat \<times> bool) list" where
  "pool_local m =
     (map executing (passes_local m),
      map (\<lambda>b. (j_pass b, j_state b = Settled)) (jobs_local m))"

definition pool_ok_local :: "env \<Rightarrow> task_local \<Rightarrow> bool" where
  "pool_ok_local e m = pool_inv e (pool_local m)"

definition nothingStored_local :: "CheckUploadResponse fetched" where
  "nothingStored_local =
     Response \<lparr> fileExists_local = False, isComplete_local = False, url_local = None,
                uploadedChunks_local_of = [], resumeInfo_local_of = None \<rparr>"

section \<open>Chunk planner: the partition of the file\<close>

lemma totalChunksOf_bounds:
  assumes "0 < csize"
  shows "fileSize \<le> totalChunksOf csize fileSize * csize"
    and "0 < fileSize \<Longrightarrow> (totalChunksOf csize fileSize - 1) * csize < fileSize"
    and "0 < fileSize \<Longrightarrow> 0 < totalChunksOf csize fileSize"
proof -
  let ?n = "totalChunksOf csize fileSize"
  have eq: "?n * csize + (fileSize + csize - 1) mod csize = fileSize + csize - 1"
    by (simp add: totalChunksOf_def)
  have lt: "(fileSize + csize - 1) mod csize < csize"
    using assms by simp
  show "fileSize \<le> ?n * csize"
    using eq lt assms by linarith
  show pos: "0 < ?n" if "0 < fileSize"
    using that assms by (simp add: totalChunksOf_def div_greater_zero_iff)
  show "(?n - 1) * csize < fileSize" if "0 < fileSize"
  proof -
    have "(?n - 1) * csize + csize = ?n * csize"
      using pos[OF that] by (cases ?n) simp_all
    then show ?thesis using eq that assms by linarith
  qed
qed

lemma totalChunksOf_ceiling:
  assumes "0 < csize"
  shows "int (totalChunksOf csize fileSize) = \<lceil>real fileSize / real csize\<rceil>"
proof (cases "fileSize = 0")
  case True
  then show ?thesis using assms by (simp add: totalChunksOf_def)
next
  case False
  let ?n = "totalChunksOf csize fileSize"
  have pos: "0 < ?n" using totalChunksOf_bounds(3)[OF assms] False by simp
  have up: "real fileSize \<le> real ?n * real csize"
    using totalChunksOf_bounds(1)[OF assms, of fileSize]
    by (metis of_nat_le_iff of_nat_mult)
  have "real ((?n - 1) * csize) < real fileSize"
    using totalChunksOf_bounds(2)[OF assms, of fileSize] False
    by (metis of_nat_less_iff not_gr_zero)
  then have lo: "(real ?n - 1) * real csize < real fileSize"
    using pos by (simp add: of_nat_diff)
  have "\<lceil>real fileSize / real csize\<rceil> = int ?n"
  proof (rule ceiling_unique)
    show "real_of_int (int ?n) - 1 < real fileSize / real csize"
      using lo assms by (simp add: pos_less_divide_eq)
    show "real fileSize / real csize \<le> real_of_int (int ?n)"
      using up assms by (simp add: pos_divide_le_eq)
  qed
  then show ?thesis by simp
qed

lemma length_createChunks [simp]:
  "length (createChunks csize fileSize) = totalChunksOf csize fileSize"
  by (simp add: createChunks_def)

lemma nth_createChunks:
  "i < totalChunksOf csize fileSize \<Longrightarrow>
     createChunks csize fileSize ! i = newChunk csize fileSize False i"
  by (simp add: createChunks_def)

lemma span_inner:
  assumes "0 < csize" "Suc i < totalChunksOf csize fileSize"
  shows "i * csize + csize \<le> fileSize"
proof -
  have "0 < fileSize" using assms by (cases "fileSize = 0") (simp_all add: totalChunksOf_def)
  then have "(totalChunksOf csize fileSize - 1) * csize < fileSize"
    using totalChunksOf_bounds(2)[OF assms(1)] by simp
  moreover have "Suc i \<le> totalChunksOf csize fileSize - 1" using assms(2) by simp
  then have "Suc i * csize \<le> (totalChunksOf csize fileSize - 1) * csize"
    by (rule mult_le_mono1)
  ultimately show ?thesis by simp
qed

lemma start_lt_fileSize:
  assumes "0 < csize" "i < totalChunksOf csize fileSize"
  shows "i * csize < fileSize"
proof -
  have "0 < fileSize" using assms by (cases "fileSize = 0") (simp_all add: totalChunksOf_def)
  then have "(totalChunksOf csize fileSize - 1) * csize < fileSize"
    using totalChunksOf_bounds(2)[OF assms(1)] by simp
  moreover have "i \<le> totalChunksOf csize fileSize - 1" using assms(2) by simp
  then have "i * csize \<le> (totalChunksOf csize fileSize - 1) * csize"
    by (rule mult_le_mono1)
  ultimately show ?thesis by linarith
qed

text \<open>Sum of the spans of the first k planned chunks.\<close>
lemma sum_spans_prefix:
  assumes "0 < csize"
  shows "k \<le> totalChunksOf csize fileSize \<Longrightarrow>
    (\<Sum>i\<leftarrow>[0..<k]. span (newChunk csize fileSize u i)) = min (k * csize) fileSize"
proof (induction k)
  case 0
  then show ?case by simp
next
  case (Suc k)
  then have k: "k < totalChunksOf csize fileSize" by simp
  have lt: "k * csize < fileSize" using start_lt_fileSize[OF assms k] .
  have "(\<Sum>i\<leftarrow>[0..<Suc k]. span (newChunk csize fileSize u i))
      = min (k * csize) fileSize + span (newChunk csize fileSize u k)"
    using Suc by simp
  also have "\<dots> = k * csize + (min (k * csize + csize) fileSize - k * csize)"
    using lt by (simp add: span_def newChunk_def)
  also have "\<dots> = min (Suc k * csize) fileSize"
    using lt by (simp add: min_def)
  finally show ?case .
qed

text \<open>
  Claim C4. For a file of positive size and a positive chunk size, the planner returns
  \<open>\<lceil>fileSize / csize\<rceil>\<close> chunks; chunk \<open>i\<close> has index \<open>i\<close> and spans the bytes from
  \<open>i * csize\<close> to \<open>min (i * csize + csize) fileSize\<close>; no chunk is empty; each
  chunk ends where the next one starts (ordered, contiguous, without overlap), the first
  starts at byte 0 and the last ends at \<open>fileSize\<close>; every chunk but the last has exactly
  \<open>csize\<close> bytes; the spans add up to \<open>fileSize\<close>; and the byte ranges depend on
  \<open>(fileSize, csize)\<close> only: the local hook's planner yields the same ranges for every
  file hash.
\<close>

theorem createChunks_partition:
  assumes "0 < fileSize" and "0 < csize"
  shows "length (createChunks csize fileSize) = nat \<lceil>real fileSize / real csize\<rceil>
    \<and> (\<forall>i < length (createChunks csize fileSize).
          index (createChunks csize fileSize ! i) = i
        \<and> start (createChunks csize fileSize ! i) = i * csize
        \<and> end_byte (createChunks csize fileSize ! i) = min (i * csize + csize) fileSize
        \<and> start (createChunks csize fileSize ! i) < end_byte (createChunks csize fileSize ! i)
        \<and> (Suc i < length (createChunks csize fileSize) \<longrightarrow>
              end_byte (createChunks csize fileSize ! i) = start (createChunks csize fileSize ! Suc i)
            \<and> span (createChunks csize fileSize ! i) = csize))
    \<and> start (hd (createChunks csize fileSize)) = 0
    \<and> end_byte (last (createChunks csize fileSize)) = fileSize
    \<and> (\<Sum>c\<leftarrow>createChunks csize fileSize. span c) = fileSize
    \<and> map (\<lambda>c. (index_local c, start_local c, end_local c)) (createChunks_local csize fileSize h)
        = map (\<lambda>c. (index c, start c, end_byte c)) (createChunks csize fileSize)"
proof -
  let ?n = "totalChunksOf csize fileSize"
  let ?cs = "createChunks csize fileSize"
  have npos: "0 < ?n" using totalChunksOf_bounds(3)[OF assms(2) assms(1)] .
  have len: "length ?cs = nat \<lceil>real fileSize / real csize\<rceil>"
    using totalChunksOf_ceiling[OF assms(2), of fileSize] by simp
  have each: "\<forall>i < length ?cs.
          index (?cs ! i) = i
        \<and> start (?cs ! i) = i * csize
        \<and> end_byte (?cs ! i) = min (i * csize + csize) fileSize
        \<and> start (?cs ! i) < end_byte (?cs ! i)
        \<and> (Suc i < length ?cs \<longrightarrow>
              end_byte (?cs ! i) = start (?cs ! Suc i) \<and> span (?cs ! i) = csize)"
  proof (intro allI impI)
    fix i assume "i < length ?cs"
    then have i: "i < ?n" by simp
    have lt: "i * csize < fileSize" using start_lt_fileSize[OF assms(2) i] .
    have a: "index (?cs ! i) = i" "start (?cs ! i) = i * csize"
      "end_byte (?cs ! i) = min (i * csize + csize) fileSize"
      using i by (simp_all add: nth_createChunks newChunk_def)
    have b: "start (?cs ! i) < end_byte (?cs ! i)"
      using a lt assms(2) by simp
    have c: "end_byte (?cs ! i) = start (?cs ! Suc i) \<and> span (?cs ! i) = csize"
      if "Suc i < length ?cs"
    proof -
      have s: "Suc i < ?n" using that by simp
      have le: "i * csize + csize \<le> fileSize" using span_inner[OF assms(2) s] .
      have "start (?cs ! Suc i) = Suc i * csize"
        using s by (simp add: nth_createChunks newChunk_def)
      then show ?thesis using a le by (simp add: span_def min_def)
    qed
    show "index (?cs ! i) = i
        \<and> start (?cs ! i) = i * csize
        \<and> end_byte (?cs ! i) = min (i * csize + csize) fileSize
        \<and> start (?cs ! i) < end_byte (?cs ! i)
        \<and> (Suc i < length ?cs \<longrightarrow>
              end_byte (?cs ! i) = start (?cs ! Suc i) \<and> span (?cs ! i) = csize)"
      using a b c by blast
  qed
  have ne: "?cs \<noteq> []" using npos by (simp add: createChunks_def)
  have first: "start (hd ?cs) = 0"
    using ne npos by (simp add: hd_conv_nth nth_createChunks newChunk_def)
  have "end_byte (last ?cs) = min ((?n - 1) * csize + csize) fileSize"
    using ne npos by (simp add: last_conv_nth nth_createChunks newChunk_def)
  also have "(?n - 1) * csize + csize = ?n * csize"
    using npos by (cases ?n) simp_all
  also have "min (?n * csize) fileSize = fileSize"
    using totalChunksOf_bounds(1)[OF assms(2), of fileSize] by simp
  finally have lastc: "end_byte (last ?cs) = fileSize" .
  have "(\<Sum>c\<leftarrow>?cs. span c) = (\<Sum>i\<leftarrow>[0..<?n]. span (newChunk csize fileSize False i))"
    by (simp add: createChunks_def comp_def)
  also have "\<dots> = min (?n * csize) fileSize"
    using sum_spans_prefix[OF assms(2), of ?n fileSize False] by simp
  also have "\<dots> = fileSize"
    using totalChunksOf_bounds(1)[OF assms(2), of fileSize] by simp
  finally have total: "(\<Sum>c\<leftarrow>?cs. span c) = fileSize" .
  have same: "map (\<lambda>c. (index_local c, start_local c, end_local c)) (createChunks_local csize fileSize h)
        = map (\<lambda>c. (index c, start c, end_byte c)) ?cs"
    by (simp add: createChunks_local_def createChunks_def newChunk_def newChunk_local_def)
  show ?thesis using len each first lastc total same by blast
qed

theorem createChunks_partition_witness:
  "(0::nat) < 23 \<and> (0::nat) < 5
   \<and> map (\<lambda>c. (index c, start c, end_byte c)) (createChunks 5 23)
       = [(0, 0, 5), (1, 5, 10), (2, 10, 15), (3, 15, 20), (4, 20, 23)]
   \<and> length (createChunks 5 23) = nat \<lceil>real 23 / real 5\<rceil>
   \<and> (\<Sum>c\<leftarrow>createChunks 5 23. span c) = 23"
proof -
  have h: "(0::nat) < 23" "(0::nat) < 5" by simp_all
  have ev: "map (\<lambda>c. (index c, start c, end_byte c)) (createChunks 5 23)
       = [(0, 0, 5), (1, 5, 10), (2, 10, 15), (3, 15, 20), (4, 20, 23)]"
    by (simp add: createChunks_def totalChunksOf_def newChunk_def upt_rec)
  show ?thesis using h ev createChunks_partition [OF h, of "[]"] by simp
qed

section \<open>Session reconciler\<close>

lemma createChunksAndMarkUploaded_local_exact:
  assumes "i < totalChunksOf csize fileSize"
  shows "uploaded_local (createChunksAndMarkUploaded_local csize fileSize h ids ! i)
           = (chunkHashOf h i \<in> set ids)
       \<and> progress_local (createChunksAndMarkUploaded_local csize fileSize h ids ! i)
           = (if chunkHashOf h i \<in> set ids then 100 else 0)
       \<and> hash_local (createChunksAndMarkUploaded_local csize fileSize h ids ! i)
           = chunkHashOf h i"
  using assms by (simp add: createChunksAndMarkUploaded_local_def newChunk_local_def)

lemma decimal_digit: "n < 10 \<Longrightarrow> decimal n = [digit n]"
  by (simp add: decimal.simps)

lemma createChunksAndMarkUploaded_local_example:
  "map uploaded_local
     (createChunksAndMarkUploaded_local 5 25 ''abc''
        [''abc_chunk_0'', ''abc_chunk_2'', ''abc_chunk_4''])
   = [True, False, True, False, True]"
  by (simp add: createChunksAndMarkUploaded_local_def totalChunksOf_def newChunk_local_def
      chunkHashOf_def decimal_digit digit_def upt_rec)

text \<open>
  Claim C1. The hook's reconciliation must mark exactly the chunks a check response names.
  The S3 hook marks by count: for a file of five chunks and a session that reports three
  uploaded parts, namely parts 1, 3 and 5 (chunks 0, 2 and 4), it marks chunks 0, 1 and 2
  uploaded with progress 100 and leaves chunks 3 and 4 pending.
\<close>

theorem createChunksAndMarkUploaded_by_count:
  "map uploaded
     (createChunksAndMarkUploaded 5 25
        \<lparr> session_totalChunks = 5, uploadedParts = Some 3, session_progress = Some 60,
          parts = Some [1, 3, 5] \<rparr>)
   = [True, True, True, False, False]
   \<and> map progress
     (createChunksAndMarkUploaded 5 25
        \<lparr> session_totalChunks = 5, uploadedParts = Some 3, session_progress = Some 60,
          parts = Some [1, 3, 5] \<rparr>)
   = [100, 100, 100, 0, 0]"
  by (simp add: createChunksAndMarkUploaded_def totalChunksOf_def newChunk_def orZero_def upt_rec)

lemma createChunksAndMarkUploaded_prefix:
  assumes "i < totalChunksOf csize fileSize"
  shows "uploaded (createChunksAndMarkUploaded csize fileSize s ! i)
           = (i < orZero (uploadedParts s))"
  using assms by (simp add: createChunksAndMarkUploaded_def newChunk_def)

section \<open>Speed tracker\<close>

lemma feed_Nil [simp]: "feed [] t = t"
  by (simp add: feed_def)

lemma feed_Cons [simp]: "feed (c # cs) t = feed cs (updateNetworkStats (fst c) (snd c) t)"
  by (simp add: feed_def)

lemma feed_append: "feed (cs @ ds) t = feed ds (feed cs t)"
  by (simp add: feed_def)

text \<open>One call, by cases.\<close>

lemma update_init:
  "startTime (snd t) = 0 \<Longrightarrow>
     updateNetworkStats now b t =
       (fst t, (snd t)\<lparr> startTime := now, lastMeasureTime := now, lastMeasureBytes := b \<rparr>)"
  by (simp add: updateNetworkStats_def Let_def)

lemma update_idle:
  "startTime (snd t) \<noteq> 0 \<Longrightarrow> \<not> takesSample now t \<Longrightarrow> updateNetworkStats now b t = t"
  by (simp add: updateNetworkStats_def takesSample_def Let_def)

lemma update_sample:
  assumes "takesSample now t"
  shows "current (fst (updateNetworkStats now b t)) = sampleAt now b t"
    and "lastUpdate (fst (updateNetworkStats now b t)) = now"
    and "peak (fst (updateNetworkStats now b t)) = max (peak (fst t)) (sampleAt now b t)"
    and "average (fst (updateNetworkStats now b t)) =
           (if 0 < now - startTime (snd t)
            then real b / (real_of_int (now - startTime (snd t)) / 1000) else 0)"
    and "speedHistory (snd (updateNetworkStats now b t)) =
           (if length (speedHistory (snd t)) \<ge> 10
            then tl (speedHistory (snd t) @ [sampleAt now b t])
            else speedHistory (snd t) @ [sampleAt now b t])"
    and "startTime (snd (updateNetworkStats now b t)) = startTime (snd t)"
    and "lastMeasureTime (snd (updateNetworkStats now b t)) = now"
    and "lastMeasureBytes (snd (updateNetworkStats now b t)) = b"
  using assms
  by (auto simp add: updateNetworkStats_def takesSample_def sampleAt_def Let_def max_def)

lemma lastN_snoc:
  assumes "length h \<le> 10"
  shows "(if length h \<ge> 10 then tl (h @ [x]) else h @ [x]) = lastN 10 (h @ [x])"
proof (cases "length h = 10")
  case True
  then have "h \<noteq> []" by auto
  then show ?thesis using True by (simp add: lastN_def drop_Suc)
next
  case False
  then show ?thesis using assms by (simp add: lastN_def)
qed

lemma lastN_lastN_append: "lastN n (lastN n xs @ ys) = lastN n (xs @ ys)"
proof (cases "length xs \<le> n")
  case True
  then show ?thesis by (simp add: lastN_def)
next
  case False
  then show ?thesis by (simp add: lastN_def add.commute)
qed

lemma history_bounded_step:
  "length (speedHistory (snd t)) \<le> 10 \<Longrightarrow>
     length (speedHistory (snd (updateNetworkStats now b t))) \<le> 10"
  by (auto simp add: updateNetworkStats_def Let_def)

lemma history_step:
  assumes "length (speedHistory (snd t)) \<le> 10"
  shows "speedHistory (snd (updateNetworkStats now b t)) =
           lastN 10 (speedHistory (snd t) @ samples [(now, b)] t)"
proof (cases "takesSample now t")
  case True
  then show ?thesis using assms lastN_snoc[OF assms] by (simp add: update_sample(5))
next
  case False
  have "updateNetworkStats now b t = t \<or> startTime (snd t) = 0"
    using False update_idle by blast
  then have "speedHistory (snd (updateNetworkStats now b t)) = speedHistory (snd t)"
    by (auto simp add: update_init)
  then show ?thesis using False assms by (simp add: lastN_def)
qed

lemma history_run:
  "length (speedHistory (snd t)) \<le> 10 \<Longrightarrow>
     speedHistory (snd (feed cs t)) = lastN 10 (speedHistory (snd t) @ samples cs t)
   \<and> length (speedHistory (snd (feed cs t))) \<le> 10"
proof (induction cs arbitrary: t)
  case Nil
  then show ?case by (simp add: lastN_def)
next
  case (Cons c cs)
  let ?t = "updateNetworkStats (fst c) (snd c) t"
  have b: "length (speedHistory (snd ?t)) \<le> 10"
    using Cons.prems by (rule history_bounded_step)
  have h: "speedHistory (snd ?t) = lastN 10 (speedHistory (snd t) @ samples [(fst c, snd c)] t)"
    using Cons.prems by (rule history_step)
  have "speedHistory (snd (feed (c # cs) t)) = lastN 10 (speedHistory (snd ?t) @ samples cs ?t)"
    using Cons.IH[OF b] by simp
  also have "\<dots> = lastN 10 ((speedHistory (snd t) @ samples [(fst c, snd c)] t) @ samples cs ?t)"
    unfolding h by (rule lastN_lastN_append)
  also have "\<dots> = lastN 10 (speedHistory (snd t) @ samples (c # cs) t)"
    by simp
  finally have e: "speedHistory (snd (feed (c # cs) t)) =
      lastN 10 (speedHistory (snd t) @ samples (c # cs) t)" .
  have "length (speedHistory (snd (feed cs ?t))) \<le> 10"
    by (rule Cons.IH[OF b, THEN conjunct2])
  then have "length (speedHistory (snd (feed (c # cs) t))) \<le> 10"
    by simp
  then show ?case using e by blast
qed

lemma peak_step:
  "peak (fst (updateNetworkStats now b t)) = fold max (samples [(now, b)] t) (peak (fst t))"
proof (cases "takesSample now t")
  case True
  then show ?thesis by (simp add: update_sample(3) max.commute)
next
  case False
  have "updateNetworkStats now b t = t \<or> startTime (snd t) = 0"
    using False update_idle by blast
  then have "peak (fst (updateNetworkStats now b t)) = peak (fst t)"
    by (auto simp add: update_init)
  then show ?thesis using False by simp
qed

lemma peak_run:
  "peak (fst (feed cs t)) = fold max (samples cs t) (peak (fst t))"
proof (induction cs arbitrary: t)
  case Nil
  then show ?case by simp
next
  case (Cons c cs)
  show ?case using Cons.IH[of "updateNetworkStats (fst c) (snd c) t"] peak_step[of "fst c" "snd c" t]
    by simp
qed

lemma current_step:
  "current (fst (updateNetworkStats now b t)) = last (current (fst t) # samples [(now, b)] t)"
proof (cases "takesSample now t")
  case True
  then show ?thesis by (simp add: update_sample(1))
next
  case False
  have "updateNetworkStats now b t = t \<or> startTime (snd t) = 0"
    using False update_idle by blast
  then have "current (fst (updateNetworkStats now b t)) = current (fst t)"
    by (auto simp add: update_init)
  then show ?thesis using False by simp
qed

lemma current_run:
  "current (fst (feed cs t)) = last (current (fst t) # samples cs t)"
proof (induction cs arbitrary: t)
  case Nil
  then show ?case by simp
next
  case (Cons c cs)
  show ?case
    using Cons.IH[of "updateNetworkStats (fst c) (snd c) t"] current_step[of "fst c" "snd c" t]
    by (auto split: if_splits)
qed

lemma startTime_step:
  "startTime (snd t) \<noteq> 0 \<Longrightarrow> startTime (snd (updateNetworkStats now b t)) = startTime (snd t)"
  by (auto simp add: updateNetworkStats_def Let_def)

lemma startTime_run:
  "startTime (snd t) \<noteq> 0 \<Longrightarrow> startTime (snd (feed cs t)) = startTime (snd t)"
  by (induction cs arbitrary: t) (simp_all add: startTime_step)

lemma fold_max_Max: "fold max xs (p::real) = Max (set (p # xs))"
  using Max.set_eq_fold[of p xs] by simp

lemma resetNetworkStats_fields [simp]:
  "speedHistory (snd resetNetworkStats) = []"
  "peak (fst resetNetworkStats) = 0"
  "current (fst resetNetworkStats) = 0"
  "startTime (snd resetNetworkStats) = 0"
  "lastMeasureBytes (snd resetNetworkStats) = 0"
  by (simp_all add: resetNetworkStats_def)

text \<open>The samples read from the state are the speeds between the measurements.\<close>

lemma samples_rates:
  "startTime (snd t) \<noteq> 0 \<Longrightarrow>
     samples cs t =
       rates ((lastMeasureTime (snd t), lastMeasureBytes (snd t))
                # measured (lastMeasureTime (snd t)) cs)"
proof (induction cs arbitrary: t)
  case Nil
  then show ?case by simp
next
  case (Cons c cs)
  let ?t = "updateNetworkStats (fst c) (snd c) t"
  show ?case
  proof (cases "takesSample (fst c) t")
    case True
    have s: "startTime (snd ?t) \<noteq> 0"
      using Cons.prems by (simp add: update_sample(6)[OF True])
    have "samples cs ?t = rates ((fst c, snd c) # measured (fst c) cs)"
      using Cons.IH[OF s] by (simp add: update_sample(7,8)[OF True])
    moreover have "sampleAt (fst c) (snd c) t
        = rate (lastMeasureTime (snd t), lastMeasureBytes (snd t)) c"
      by (simp add: sampleAt_def rate_def)
    moreover have "1000 \<le> fst c - lastMeasureTime (snd t)"
      using True by (simp add: takesSample_def)
    ultimately show ?thesis using True by simp
  next
    case False
    then have same: "?t = t" using Cons.prems by (simp add: update_idle)
    have "\<not> 1000 \<le> fst c - lastMeasureTime (snd t)"
      using False Cons.prems by (simp add: takesSample_def)
    then show ?thesis using False same Cons.IH[OF Cons.prems] by simp
  qed
qed

lemma lastMeasure_run:
  "startTime (snd t) \<noteq> 0 \<Longrightarrow>
     (lastMeasureTime (snd (feed cs t)), lastMeasureBytes (snd (feed cs t)))
       = last ((lastMeasureTime (snd t), lastMeasureBytes (snd t))
                 # measured (lastMeasureTime (snd t)) cs)"
proof (induction cs arbitrary: t)
  case Nil
  then show ?case by simp
next
  case (Cons c cs)
  let ?t = "updateNetworkStats (fst c) (snd c) t"
  show ?case
  proof (cases "takesSample (fst c) t")
    case True
    have s: "startTime (snd ?t) \<noteq> 0"
      using Cons.prems by (simp add: update_sample(6)[OF True])
    have "1000 \<le> fst c - lastMeasureTime (snd t)"
      using True by (simp add: takesSample_def)
    then show ?thesis
      using Cons.IH[OF s] by (simp add: update_sample(7,8)[OF True])
  next
    case False
    then have same: "?t = t" using Cons.prems by (simp add: update_idle)
    have "\<not> 1000 \<le> fst c - lastMeasureTime (snd t)"
      using False Cons.prems by (simp add: takesSample_def)
    then show ?thesis using same Cons.IH[OF Cons.prems] by simp
  qed
qed

lemma lastUpdate_run:
  "startTime (snd t) \<noteq> 0 \<Longrightarrow>
     lastUpdate (fst (feed cs t))
       = (if measured (lastMeasureTime (snd t)) cs = [] then lastUpdate (fst t)
          else fst (last (measured (lastMeasureTime (snd t)) cs)))"
proof (induction cs arbitrary: t)
  case Nil
  then show ?case by simp
next
  case (Cons c cs)
  let ?t = "updateNetworkStats (fst c) (snd c) t"
  show ?case
  proof (cases "takesSample (fst c) t")
    case True
    have s: "startTime (snd ?t) \<noteq> 0"
      using Cons.prems by (simp add: update_sample(6)[OF True])
    have "1000 \<le> fst c - lastMeasureTime (snd t)"
      using True by (simp add: takesSample_def)
    then show ?thesis
      using Cons.IH[OF s] by (simp add: update_sample(2,7)[OF True])
  next
    case False
    then have same: "?t = t" using Cons.prems by (simp add: update_idle)
    have "\<not> 1000 \<le> fst c - lastMeasureTime (snd t)"
      using False Cons.prems by (simp add: takesSample_def)
    then show ?thesis using same Cons.IH[OF Cons.prems] by simp
  qed
qed

lemma average_run:
  "startTime (snd t) \<noteq> 0 \<Longrightarrow> startTime (snd t) \<le> lastMeasureTime (snd t) \<Longrightarrow>
     average (fst (feed cs t))
       = (if measured (lastMeasureTime (snd t)) cs = [] then average (fst t)
          else real (snd (last (measured (lastMeasureTime (snd t)) cs)))
                 / (real_of_int (fst (last (measured (lastMeasureTime (snd t)) cs))
                                   - startTime (snd t)) / 1000))"
proof (induction cs arbitrary: t)
  case Nil
  then show ?case by simp
next
  case (Cons c cs)
  let ?t = "updateNetworkStats (fst c) (snd c) t"
  show ?case
  proof (cases "takesSample (fst c) t")
    case True
    have st: "startTime (snd ?t) = startTime (snd t)"
      by (rule update_sample(6)[OF True])
    have s: "startTime (snd ?t) \<noteq> 0" using Cons.prems(1) st by simp
    have g: "1000 \<le> fst c - lastMeasureTime (snd t)"
      using True by (simp add: takesSample_def)
    then have pos: "0 < fst c - startTime (snd t)" using Cons.prems(2) by simp
    have le: "startTime (snd ?t) \<le> lastMeasureTime (snd ?t)"
      using pos st by (simp add: update_sample(7)[OF True])
    have av: "average (fst ?t) = real (snd c) / (real_of_int (fst c - startTime (snd t)) / 1000)"
      using pos by (simp add: update_sample(4)[OF True])
    show ?thesis
      using Cons.IH[OF s le] g av st by (simp add: update_sample(7)[OF True])
  next
    case False
    then have same: "?t = t" using Cons.prems by (simp add: update_idle)
    have "\<not> 1000 \<le> fst c - lastMeasureTime (snd t)"
      using False Cons.prems by (simp add: takesSample_def)
    then show ?thesis using same Cons.IH[OF Cons.prems] by simp
  qed
qed

lemma totals_step:
  "uploadedBytes (snd (updateNetworkStats now b t)) = uploadedBytes (snd t)
   \<and> totalBytes (snd (updateNetworkStats now b t)) = totalBytes (snd t)"
  by (simp add: updateNetworkStats_def Let_def)

lemma totals_run:
  "uploadedBytes (snd (feed cs t)) = uploadedBytes (snd t)
   \<and> totalBytes (snd (feed cs t)) = totalBytes (snd t)"
  by (induction cs arbitrary: t) (simp_all add: totals_step)

lemma rates_empty: "rates (p # ms) = [] \<longleftrightarrow> ms = []"
  by (cases ms) simp_all

text \<open>Consecutive measurements are at least 1000 ms apart.\<close>

lemma measured_gaps:
  "Suc i < length (p # measured (fst p) cs) \<Longrightarrow>
     1000 \<le> fst ((p # measured (fst p) cs) ! Suc i) - fst ((p # measured (fst p) cs) ! i)"
proof (induction cs arbitrary: p i)
  case Nil
  then show ?case by simp
next
  case (Cons c cs)
  show ?case
  proof (cases "1000 \<le> fst c - fst p")
    case True
    show ?thesis
    proof (cases i)
      case 0
      then show ?thesis using True by simp
    next
      case (Suc k)
      then have "Suc k < length (c # measured (fst c) cs)" using Cons.prems True by simp
      then show ?thesis using Cons.IH[of k c] True Suc by simp
    qed
  next
    case False
    then show ?thesis using Cons.IH[of i p] Cons.prems by simp
  qed
qed

text \<open>
  Claim C9, as stated. After the calls at 1000 ms with 0 bytes, at 2000 ms with 5000 bytes
  and at 2500 ms with 9000 bytes, \<open>average\<close> is not the 9000 bytes passed in divided by the
  1.5 seconds since the start: the third call comes 500 ms after a sample and changes
  nothing, so \<open>average\<close> is still 5000. After the calls at 1000 ms with 1000 bytes and at
  2000 ms with 200 bytes (the count passed in is \<^verbatim>\<open>uploadedSize + event.loaded\<close>, which goes
  down from the progress event of one chunk to that of another) the only sample is -800,
  and \<open>peak\<close> is not that sample but its reset value 0.
\<close>

theorem speed_tracker_counterexample:
  "average (fst (feed [(1000, 0), (2000, 5000), (2500, 9000)] resetNetworkStats))
     \<noteq> 9000 / (real_of_int (2500 - 1000) / 1000)
   \<and> speedHistory (snd (feed [(1000, 1000), (2000, 200)] resetNetworkStats)) = [- 800]
   \<and> peak (fst (feed [(1000, 1000), (2000, 200)] resetNetworkStats))
     \<noteq> Max (set (speedHistory (snd (feed [(1000, 1000), (2000, 200)] resetNetworkStats))))"
  by (simp add: resetNetworkStats_def updateNetworkStats_def Let_def)

text \<open>
  Claim C9, amended. The state of the tracker after the first call since a reset (clock
  reading \<open>t0\<close>, not 0, and \<open>b0\<close> bytes) and any further calls, where \<open>ms\<close> are the
  measurements: the first call, and each later call that comes at least 1000 ms after the
  measurement before it. The history holds the speeds between consecutive measurements,
  the ten most recent of them; \<open>current\<close> is the latest of these speeds; \<open>peak\<close> is the
  greatest of 0 and these speeds; \<open>average\<close> is the byte count of the last measurement
  divided by the seconds from the first call to it, and is 0 as long as no sample is
  taken; the start time is that of the first call, and the last measurement recorded is
  the last of \<open>ms\<close>. Consecutive measurements are at least 1000 ms apart.
\<close>

theorem speed_tracker:
  assumes t0: "t0 \<noteq> 0"
    and ms: "ms = (t0, b0) # measured t0 calls"
    and t: "t = feed ((t0, b0) # calls)
                  (fst resetNetworkStats, (snd resetNetworkStats)\<lparr> totalBytes := tb \<rparr>)"
  shows "length (speedHistory (snd t)) \<le> 10
    \<and> speedHistory (snd t) = lastN 10 (rates ms)
    \<and> current (fst t) = last (0 # rates ms)
    \<and> peak (fst t) = Max (set (0 # rates ms))
    \<and> average (fst t)
        = (if length ms = 1 then 0
           else real (snd (last ms)) / (real_of_int (fst (last ms) - t0) / 1000))
    \<and> lastUpdate (fst t) = (if length ms = 1 then 0 else fst (last ms))
    \<and> startTime (snd t) = t0
    \<and> lastMeasureTime (snd t) = fst (last ms)
    \<and> lastMeasureBytes (snd t) = snd (last ms)
    \<and> uploadedBytes (snd t) = 0
    \<and> totalBytes (snd t) = tb
    \<and> (\<forall>i. Suc i < length ms \<longrightarrow> 1000 \<le> fst (ms ! Suc i) - fst (ms ! i))"
proof -
  let ?r = "(fst resetNetworkStats, (snd resetNetworkStats)\<lparr> totalBytes := tb \<rparr>)"
  let ?t1 = "updateNetworkStats t0 b0 ?r"
  have t1: "?t1 = (fst resetNetworkStats,
      (snd resetNetworkStats)\<lparr> totalBytes := tb, startTime := t0, lastMeasureTime := t0,
                                 lastMeasureBytes := b0 \<rparr>)"
    by (simp add: update_init)
  have f: "t = feed calls ?t1" using t by simp
  have s1: "startTime (snd ?t1) \<noteq> 0" and lm1: "lastMeasureTime (snd ?t1) = t0"
    and lb1: "lastMeasureBytes (snd ?t1) = b0" and h1: "speedHistory (snd ?t1) = []"
    and st1: "startTime (snd ?t1) = t0"
    and c1: "current (fst ?t1) = 0" and p1: "peak (fst ?t1) = 0"
    and a1: "average (fst ?t1) = 0" and u1: "lastUpdate (fst ?t1) = 0"
    and ub1: "uploadedBytes (snd ?t1) = 0" and tb1: "totalBytes (snd ?t1) = tb"
    unfolding t1 using t0 by (simp_all add: resetNetworkStats_def)
  have xs: "samples calls ?t1 = rates ms"
    using samples_rates[OF s1, of calls] by (simp only: lm1 lb1 ms)
  have run: "speedHistory (snd (feed calls ?t1))
        = lastN 10 (speedHistory (snd ?t1) @ samples calls ?t1)
      \<and> length (speedHistory (snd (feed calls ?t1))) \<le> 10"
    by (rule history_run) (simp only: h1 list.size)
  have hist: "speedHistory (snd t) = lastN 10 (rates ms)"
    using run[THEN conjunct1] by (simp only: f h1 xs append_Nil)
  have len: "length (speedHistory (snd t)) \<le> 10"
    using run[THEN conjunct2] by (simp only: f)
  have cur: "current (fst t) = last (0 # rates ms)"
    using current_run[of calls ?t1] by (simp only: f c1 xs)
  have pk: "peak (fst t) = Max (set (0 # rates ms))"
    using peak_run[of calls ?t1] fold_max_Max[of "rates ms" 0] by (simp only: f p1 xs)
  have e: "length ms = 1 \<longleftrightarrow> measured t0 calls = []"
    by (simp add: ms)
  have l: "measured t0 calls \<noteq> [] \<Longrightarrow> last ms = last (measured t0 calls)"
    by (simp add: ms)
  have lmr: "(lastMeasureTime (snd (feed calls ?t1)), lastMeasureBytes (snd (feed calls ?t1)))
      = last ((lastMeasureTime (snd ?t1), lastMeasureBytes (snd ?t1))
                # measured (lastMeasureTime (snd ?t1)) calls)"
    using s1 by (rule lastMeasure_run)
  have lmr': "(lastMeasureTime (snd t), lastMeasureBytes (snd t)) = last ms"
    unfolding f ms using lmr by (simp only: lm1 lb1)
  have lmt: "lastMeasureTime (snd t) = fst (last ms)"
    using arg_cong[OF lmr', of fst] by (simp only: fst_conv)
  have lmb: "lastMeasureBytes (snd t) = snd (last ms)"
    using arg_cong[OF lmr', of snd] by (simp only: snd_conv)
  have le1: "startTime (snd ?t1) \<le> lastMeasureTime (snd ?t1)"
    by (simp only: st1 lm1 order_refl)
  have avr: "average (fst (feed calls ?t1))
       = (if measured (lastMeasureTime (snd ?t1)) calls = [] then average (fst ?t1)
          else real (snd (last (measured (lastMeasureTime (snd ?t1)) calls)))
                 / (real_of_int (fst (last (measured (lastMeasureTime (snd ?t1)) calls))
                                   - startTime (snd ?t1)) / 1000))"
    using s1 le1 by (rule average_run)
  have avr': "average (fst t)
       = (if measured t0 calls = [] then 0
          else real (snd (last (measured t0 calls)))
                 / (real_of_int (fst (last (measured t0 calls)) - t0) / 1000))"
    unfolding f using avr by (simp only: lm1 st1 a1)
  have av: "average (fst t)
        = (if length ms = 1 then 0
           else real (snd (last ms)) / (real_of_int (fst (last ms) - t0) / 1000))"
  proof (cases "measured t0 calls = []")
    case True
    then show ?thesis using avr' e by simp
  next
    case False
    then show ?thesis using avr' e l[OF False] by simp
  qed
  have lur: "lastUpdate (fst (feed calls ?t1))
       = (if measured (lastMeasureTime (snd ?t1)) calls = [] then lastUpdate (fst ?t1)
          else fst (last (measured (lastMeasureTime (snd ?t1)) calls)))"
    using s1 by (rule lastUpdate_run)
  have lur': "lastUpdate (fst t)
       = (if measured t0 calls = [] then 0 else fst (last (measured t0 calls)))"
    unfolding f using lur by (simp only: lm1 u1)
  have lu: "lastUpdate (fst t) = (if length ms = 1 then 0 else fst (last ms))"
  proof (cases "measured t0 calls = []")
    case True
    then show ?thesis using lur' e by simp
  next
    case False
    then show ?thesis using lur' e l[OF False] by simp
  qed
  have stt: "startTime (snd t) = t0"
    unfolding f using startTime_run[OF s1, of calls] by (simp only: st1)
  have tot: "uploadedBytes (snd t) = 0" "totalBytes (snd t) = tb"
    unfolding f using totals_run[of calls ?t1] by (simp_all only: ub1 tb1)
  have gaps: "\<forall>i. Suc i < length ms \<longrightarrow> 1000 \<le> fst (ms ! Suc i) - fst (ms ! i)"
  proof (intro allI impI)
    fix i assume "Suc i < length ms"
    then have "Suc i < length ((t0, b0) # measured (fst (t0, b0)) calls)"
      by (simp add: ms)
    then have "1000 \<le> fst (((t0, b0) # measured (fst (t0, b0)) calls) ! Suc i)
        - fst (((t0, b0) # measured (fst (t0, b0)) calls) ! i)"
      by (rule measured_gaps)
    then show "1000 \<le> fst (ms ! Suc i) - fst (ms ! i)"
      by (simp add: ms)
  qed
  show ?thesis
    by (intro conjI) (rule len hist cur pk av lu stt lmt lmb tot gaps)+
qed

theorem speed_tracker_witness:
  "(1000::int) \<noteq> 0
   \<and> (1000, 0) # measured 1000 [(2000, 5000), (2500, 9000), (3500, 8000)]
       = [(1000, 0), (2000, 5000), (3500, 8000)]
   \<and> speedHistory (snd (feed [(1000, 0), (2000, 5000), (2500, 9000), (3500, 8000)]
        resetNetworkStats)) = [5000, 2000]
   \<and> current (fst (feed [(1000, 0), (2000, 5000), (2500, 9000), (3500, 8000)]
        resetNetworkStats)) = 2000
   \<and> peak (fst (feed [(1000, 0), (2000, 5000), (2500, 9000), (3500, 8000)]
        resetNetworkStats)) = 5000
   \<and> average (fst (feed [(1000, 0), (2000, 5000), (2500, 9000), (3500, 8000)]
        resetNetworkStats)) = 3200
   \<and> lastMeasureTime (snd (feed [(1000, 0), (2000, 5000), (2500, 9000), (3500, 8000)]
        resetNetworkStats)) = 3500
   \<and> lastMeasureBytes (snd (feed [(1000, 0), (2000, 5000), (2500, 9000), (3500, 8000)]
        resetNetworkStats)) = 8000
   \<and> Suc 0 < length [(1000::int, 0::nat), (2000, 5000), (3500, 8000)]
   \<and> 1000 \<le> fst ([(1000::int, 0::nat), (2000, 5000), (3500, 8000)] ! Suc 0)
              - fst ([(1000::int, 0::nat), (2000, 5000), (3500, 8000)] ! 0)"
proof -
  let ?calls = "[(2000::int, 5000::nat), (2500, 9000), (3500, 8000)]"
  let ?ms = "[(1000::int, 0::nat), (2000, 5000), (3500, 8000)]"
  have z: "(1000::int) \<noteq> 0" by simp
  have ms: "?ms = (1000, 0) # measured 1000 ?calls" by simp
  have r: "(fst resetNetworkStats, (snd resetNetworkStats)\<lparr> totalBytes := 0 \<rparr>)
      = resetNetworkStats"
    by (simp add: resetNetworkStats_def)
  have t: "feed ((1000, 0) # ?calls) resetNetworkStats
      = feed ((1000, 0) # ?calls)
          (fst resetNetworkStats, (snd resetNetworkStats)\<lparr> totalBytes := 0 \<rparr>)"
    by (simp only: r)
  have rs: "rates ?ms = [5000, 2000]" by (simp add: rate_def)
  have mx: "Max (set (0 # rates ?ms)) = 5000" by (simp add: rate_def)
  have i1: "Suc 0 < length ?ms" by simp
  note th = speed_tracker [OF z ms t]
  let ?T = "feed ((1000, 0) # ?calls) resetNetworkStats"
  have h: "speedHistory (snd ?T) = [5000, 2000]"
    using th[THEN conjunct2, THEN conjunct1] by (simp add: rate_def lastN_def)
  have c: "current (fst ?T) = 2000"
    using th[THEN conjunct2, THEN conjunct2, THEN conjunct1] by (simp add: rate_def)
  have p: "peak (fst ?T) = 5000"
    using th[THEN conjunct2, THEN conjunct2, THEN conjunct2, THEN conjunct1]
    by (simp only: mx)
  have a: "average (fst ?T) = 3200"
    using th[THEN conjunct2, THEN conjunct2, THEN conjunct2, THEN conjunct2, THEN conjunct1]
    by simp
  have lt: "lastMeasureTime (snd ?T) = 3500" "lastMeasureBytes (snd ?T) = 8000"
    using th by simp_all
  have g: "1000 \<le> fst (?ms ! Suc 0) - fst (?ms ! 0)"
    using th i1 by blast
  show ?thesis using z ms h c p a lt i1 g by simp
qed

section \<open>Instant transfer\<close>

text \<open>
  The state \<^verbatim>\<open>startUpload\<close> leaves when the check response reports the file stored and
  complete.
\<close>

lemma startUpload_instant:
  assumes "currentFile m = Some fileSize" and "fileHash m \<noteq> []"
    and "fileExists r" and "isComplete r"
  shows "startUpload e (Response r) init m =
     m\<lparr> speedInfo := fst resetNetworkStats,
         networkStats := (snd resetNetworkStats)\<lparr> totalBytes := fileSize \<rparr>,
         isUploading := False, isCompleted := True, isPaused := False,
         isSecondTransfer := True, isCheckingUpload := False,
         requests := requests m @ [CheckRequest],
         returned := returned m @ [Inr (orNull (url r))] \<rparr>"
  using assms
  by (simp add: startUpload_def checkUploadStatus_def callerReturned_def Let_def)




text \<open>
  Claim C10. In the same situation the call returns the URL of the check response, or
  \<^verbatim>\<open>null\<close> when the response has none or an empty one, with \<^verbatim>\<open>isCompleted\<close> and
  \<^verbatim>\<open>isSecondTransfer\<close> set; the chunk list and \<^verbatim>\<open>uploadProgress\<close> are left as they were, so
  \<^verbatim>\<open>uploadedSize\<close> is too. After the selection of a file the chunk list is therefore still
  empty, \<^verbatim>\<open>uploadProgress.loaded\<close> and \<^verbatim>\<open>uploadProgress.percentage\<close> are still 0, and
  \<^verbatim>\<open>uploadedSize\<close> is 0, which differs from the size of a file that is not empty.
\<close>

theorem instant_transfer_leaves_progress:
  assumes "currentFile m = Some fileSize" and "fileHash m \<noteq> []"
    and "fileExists r" and "isComplete r"
  shows "returned (startUpload e (Response r) init m)
       = returned m @ [Inr (case url r of
                              None \<Rightarrow> None
                            | Some u \<Rightarrow> if u = [] then None else Some u)]
    \<and> isCompleted (startUpload e (Response r) init m)
    \<and> isSecondTransfer (startUpload e (Response r) init m)
    \<and> chunks (startUpload e (Response r) init m) = chunks m
    \<and> uploadProgress (startUpload e (Response r) init m) = uploadProgress m
    \<and> uploadedSize (startUpload e (Response r) init m) = uploadedSize m
    \<and> (m = selected fileSize h \<longrightarrow>
          chunks (startUpload e (Response r) init m) = []
        \<and> loaded (uploadProgress (startUpload e (Response r) init m)) = 0
        \<and> percentage (uploadProgress (startUpload e (Response r) init m)) = 0
        \<and> uploadedSize (startUpload e (Response r) init m) = 0
        \<and> (0 < fileSize \<longrightarrow> uploadedSize (startUpload e (Response r) init m) \<noteq> fileSize))"
proof -
  note st = startUpload_instant[OF assms]
  have a: "returned (startUpload e (Response r) init m)
       = returned m @ [Inr (case url r of
                              None \<Rightarrow> None
                            | Some u \<Rightarrow> if u = [] then None else Some u)]
    \<and> isCompleted (startUpload e (Response r) init m)
    \<and> isSecondTransfer (startUpload e (Response r) init m)
    \<and> chunks (startUpload e (Response r) init m) = chunks m
    \<and> uploadProgress (startUpload e (Response r) init m) = uploadProgress m
    \<and> uploadedSize (startUpload e (Response r) init m) = uploadedSize m"
    by (simp add: st uploadedSize_def uploadedChunks_def orNull_def)
  have b: "chunks (startUpload e (Response r) init m) = []
        \<and> loaded (uploadProgress (startUpload e (Response r) init m)) = 0
        \<and> percentage (uploadProgress (startUpload e (Response r) init m)) = 0
        \<and> uploadedSize (startUpload e (Response r) init m) = 0
        \<and> (0 < fileSize \<longrightarrow> uploadedSize (startUpload e (Response r) init m) \<noteq> fileSize)"
    if "m = selected fileSize h"
    using a that by (simp add: selected_def reset_def uploadedSize_def uploadedChunks_def)
  show ?thesis using a b by blast
qed

theorem instant_transfer_leaves_progress_witness:
  "currentFile (selected 10 ''h'') = Some 10 \<and> fileHash (selected 10 ''h'') \<noteq> []
   \<and> fileExists \<lparr> fileExists = True, isComplete = True, url = Some ''u'', session = None \<rparr>
   \<and> isComplete \<lparr> fileExists = True, isComplete = True, url = Some ''u'', session = None \<rparr>
   \<and> (0::nat) < 10
   \<and> returned (startUpload (options 3) alreadyStored sessionCreated (selected 10 ''h''))
       = [Inr (Some ''u'')]
   \<and> returned (startUpload (options 3)
         (Response \<lparr> fileExists = True, isComplete = True, url = None, session = None \<rparr>)
         sessionCreated (selected 10 ''h''))
       = [Inr None]
   \<and> returned (startUpload (options 3)
         (Response \<lparr> fileExists = True, isComplete = True, url = Some [], session = None \<rparr>)
         sessionCreated (selected 10 ''h''))
       = [Inr None]
   \<and> chunks (startUpload (options 3) alreadyStored sessionCreated (selected 10 ''h'')) = []
   \<and> loaded (uploadProgress
        (startUpload (options 3) alreadyStored sessionCreated (selected 10 ''h''))) = 0
   \<and> uploadedSize (startUpload (options 3) alreadyStored sessionCreated (selected 10 ''h''))
       \<noteq> 10"
proof -
  let ?r = "\<lparr> fileExists = True, isComplete = True, url = Some ''u'', session = None \<rparr>"
  let ?r2 = "\<lparr> fileExists = True, isComplete = True, url = None :: string option,
               session = None \<rparr>"
  let ?r3 = "\<lparr> fileExists = True, isComplete = True, url = Some ([] :: string),
               session = None \<rparr>"
  let ?m = "startUpload (options 3) (Response ?r) sessionCreated (selected 10 ''h'')"
  let ?m2 = "startUpload (options 3) (Response ?r2) sessionCreated (selected 10 ''h'')"
  let ?m3 = "startUpload (options 3) (Response ?r3) sessionCreated (selected 10 ''h'')"
  have h: "currentFile (selected 10 ''h'') = Some 10" "fileHash (selected 10 ''h'') \<noteq> []"
    "fileExists ?r" "isComplete ?r"
    by (simp_all add: selected_def reset_def)
  have h2: "fileExists ?r2" "isComplete ?r2" and h3: "fileExists ?r3" "isComplete ?r3"
    by simp_all
  have e: "returned (selected 10 ''h'') = []"
    by (simp add: selected_def reset_def)
  note th = instant_transfer_leaves_progress [OF h, of "options 3" sessionCreated "''h''"]
  note th2 = instant_transfer_leaves_progress [OF h(1,2) h2, of "options 3" sessionCreated "''h''"]
  note th3 = instant_transfer_leaves_progress [OF h(1,2) h3, of "options 3" sessionCreated "''h''"]
  have r1: "returned ?m = [Inr (Some ''u'')]"
    using th[THEN conjunct1] by (simp add: e)
  have r2: "returned ?m2 = [Inr None]"
    using th2[THEN conjunct1] by (simp add: e)
  have r3: "returned ?m3 = [Inr None]"
    using th3[THEN conjunct1] by (simp add: e)
  have "selected 10 ''h'' = selected 10 ''h'' \<longrightarrow>
          chunks ?m = []
        \<and> loaded (uploadProgress ?m) = 0
        \<and> percentage (uploadProgress ?m) = 0
        \<and> uploadedSize ?m = 0
        \<and> ((0::nat) < 10 \<longrightarrow> uploadedSize ?m \<noteq> 10)"
    using th by blast
  then have "chunks ?m = [] \<and> loaded (uploadProgress ?m) = 0 \<and> uploadedSize ?m \<noteq> 10"
    by simp
  then show ?thesis using h r1 r2 r3 unfolding alreadyStored_def by simp
qed

section \<open>The pool invariant\<close>

lemma pool_ok_iff:
  "pool_ok e m =
     ((\<forall>p < length (passes m). length (executing (passes m ! p)) \<le> max 1 (concurrent e))
    \<and> (\<forall>j < length (jobs m). j_state (jobs m ! j) \<noteq> Settled \<longrightarrow>
           j_pass (jobs m ! j) < length (passes m)
         \<and> j \<in> set (executing (passes m ! j_pass (jobs m ! j)))))"
  by (auto simp add: pool_ok_def pool_inv_def pool_def)

lemma pool_eq_iff:
  "pool m' = pool m \<longleftrightarrow>
     length (passes m') = length (passes m)
   \<and> (\<forall>p < length (passes m). executing (passes m' ! p) = executing (passes m ! p))
   \<and> length (jobs m') = length (jobs m)
   \<and> (\<forall>j < length (jobs m). j_pass (jobs m' ! j) = j_pass (jobs m ! j)
         \<and> (j_state (jobs m' ! j) = Settled \<longleftrightarrow> j_state (jobs m ! j) = Settled))"
  unfolding pool_def by (auto simp add: list_eq_iff_nth_eq)

lemma pool_ok_cong: "pool m' = pool m \<Longrightarrow> pool_ok e m' = pool_ok e m"
  by (simp add: pool_ok_def)

lemma map_list_update_same:
  "f y = f (xs ! p) \<Longrightarrow> map f (xs[p := y]) = map f xs"
  by (cases "p < length xs") (auto simp add: list_eq_iff_nth_eq nth_list_update)

lemma pool_setChunk [simp]: "pool (setChunk c f m) = pool m"
  by (simp add: pool_def setChunk_def)

lemma pool_finallyDelete [simp]: "pool (finallyDelete j m) = pool m"
  by (simp add: pool_def finallyDelete_def)

lemma pool_updateTotalProgress [simp]: "pool (updateTotalProgress m) = pool m"
  by (simp add: pool_def updateTotalProgress_def split: option.splits)

lemma pool_callerThrew [simp]: "pool (callerThrew x m) = pool m"
  by (simp add: pool_def callerThrew_def)

lemma pool_callerReturned [simp]: "pool (callerReturned r m) = pool m"
  by (simp add: pool_def callerReturned_def)

lemma pool_completeUpload_call [simp]: "pool (completeUpload_call m) = pool m"
  by (simp add: completeUpload_call_def) (simp add: pool_def)

lemma pool_setPass_control [simp]:
  "pool (setPass p (\<lambda>q. q\<lparr> control := x \<rparr>) m) = pool m"
  "pool (setPass p (\<lambda>q. q\<lparr> pendingChunks := cs \<rparr>) m) = pool m"
  "pool (setPass p (\<lambda>q. q\<lparr> pendingChunks := cs, control := x \<rparr>) m) = pool m"
  by (simp_all add: pool_def setPass_def map_list_update_same)

lemma pool_passReturned [simp]: "pool (passReturned p m) = pool m"
  by (simp add: passReturned_def Let_def split: caller.splits)

lemma pool_passThrew [simp]: "pool (passThrew p x m) = pool m"
  by (simp add: passThrew_def)

lemma pool_awaitAllSettled [simp]: "pool (awaitAllSettled p m) = pool m"
  by (simp add: awaitAllSettled_def)

lemma pool_abort [simp]: "pool (abort k m) = pool m"
  by (auto simp add: pool_eq_iff abort_def)

lemma pool_pauseChunk [simp]: "pool (pauseChunk c m) = pool m"
  by (simp add: pauseChunk_def Let_def split: option.splits)

lemma pool_fold_pauseChunk [simp]: "pool (fold pauseChunk cs m) = pool m"
  by (induction cs arbitrary: m) simp_all

lemma pool_pauseUpload [simp]: "pool (pauseUpload m) = pool m"
  by (simp add: pauseUpload_def) (simp add: pool_def)

lemma pool_resetInterrupted [simp]: "pool (resetInterrupted c m) = pool m"
  by (simp add: resetInterrupted_def Let_def)

lemma pool_fold_resetInterrupted [simp]: "pool (fold resetInterrupted cs m) = pool m"
  by (induction cs arbitrary: m) simp_all

lemma pool_onProgress [simp]: "pool (onProgress j l t now m) = pool m"
  by (simp add: onProgress_def Let_def) (simp add: pool_def setChunk_def)

lemma pool_onCompleteResponse [simp]: "pool (onCompleteResponse r m) = pool m"
  by (simp add: onCompleteResponse_def Let_def split: complete_result.splits) (simp add: pool_def)

lemma pool_setJob_unsettled:
  assumes "j_pass (f (jobs m ! j)) = j_pass (jobs m ! j)"
    and "j_state (jobs m ! j) \<noteq> Settled" and "j_state (f (jobs m ! j)) \<noteq> Settled"
  shows "pool (setJob j f m) = pool m"
  using assms by (simp add: pool_def setJob_def map_list_update_same)

lemma jobs_setChunk [simp]: "jobs (setChunk c f m) = jobs m"
  by (simp add: setChunk_def)

lemma pool_uploadChunk_call:
  assumes "j_state (jobs m ! j) \<noteq> Settled"
  shows "pool (uploadChunk_call e j m) = pool m"
proof -
  have a: "pool (m\<lparr>controllers := k\<rparr>) = pool m" for k
    by (simp add: pool_def)
  have b: "pool (m\<lparr>controllers := k, requests := r\<rparr>) = pool m" for k r
    by (simp add: pool_def)
  show ?thesis
    using assms unfolding uploadChunk_call_def Let_def
    by (simp add: pool_setJob_unsettled a b)
qed

lemma pool_ok_push:
  assumes ok: "pool_ok e m" and p: "p < length (passes m)"
    and room: "length (executing (passes m ! p)) < max 1 (concurrent e)"
    and m': "passes m' = (passes m)[p := (passes m ! p)\<lparr> executing := executing (passes m ! p) @ [length (jobs m)] \<rparr>]"
    and len: "length (jobs m') = Suc (length (jobs m))"
    and old: "\<forall>j < length (jobs m). j_pass (jobs m' ! j) = j_pass (jobs m ! j)
                \<and> (j_state (jobs m' ! j) = Settled \<longleftrightarrow> j_state (jobs m ! j) = Settled)"
    and new: "j_pass (jobs m' ! length (jobs m)) = p"
  shows "pool_ok e m'"
  unfolding pool_ok_iff
proof (intro conjI allI impI)
  fix q assume "q < length (passes m')"
  then have q: "q < length (passes m)" using m' by simp
  show "length (executing (passes m' ! q)) \<le> max 1 (concurrent e)"
  proof (cases "q = p")
    case True
    then show ?thesis using m' p room by simp
  next
    case False
    then show ?thesis using m' q ok by (simp add: pool_ok_iff)
  qed
next
  fix j assume j: "j < length (jobs m')" and st: "j_state (jobs m' ! j) \<noteq> Settled"
  show "j_pass (jobs m' ! j) < length (passes m')"
  proof (cases "j < length (jobs m)")
    case True
    then show ?thesis using old st ok m' by (simp add: pool_ok_iff)
  next
    case False
    then have "j = length (jobs m)" using j len by simp
    then show ?thesis using new p m' by simp
  qed
  show "j \<in> set (executing (passes m' ! j_pass (jobs m' ! j)))"
  proof (cases "j < length (jobs m)")
    case True
    then have a: "j_pass (jobs m' ! j) = j_pass (jobs m ! j)" "j_state (jobs m ! j) \<noteq> Settled"
      using old st by auto
    then have b: "j_pass (jobs m ! j) < length (passes m)"
      "j \<in> set (executing (passes m ! j_pass (jobs m ! j)))"
      using ok True by (auto simp add: pool_ok_iff)
    show ?thesis
    proof (cases "j_pass (jobs m ! j) = p")
      case True
      then show ?thesis using a b m' p by simp
    next
      case False
      then show ?thesis using a b m' by simp
    qed
  next
    case False
    then have "j = length (jobs m)" using j len by simp
    then show ?thesis using new p m' by simp
  qed
qed

text \<open>The state after one admission: call of \<open>uploadSingleChunk\<close> and push.\<close>

lemma admit_shape:
  fixes e p c m
  defines "m' \<equiv> setPass p (\<lambda>q. q\<lparr> executing := executing q @ [length (jobs m)] \<rparr>)
                    (uploadSingleChunk_call e p c m)"
  shows "passes m' = (passes m)[p := (passes m ! p)\<lparr> executing := executing (passes m ! p) @ [length (jobs m)] \<rparr>]"
    and "length (jobs m') = Suc (length (jobs m))"
    and "\<forall>j < length (jobs m). j_pass (jobs m' ! j) = j_pass (jobs m ! j)
                \<and> (j_state (jobs m' ! j) = Settled \<longleftrightarrow> j_state (jobs m ! j) = Settled)"
    and "j_pass (jobs m' ! length (jobs m)) = p"
    and "isPaused m' = isPaused m"
proof -
  let ?new = "\<lambda>a. \<lparr> j_chunk = c, j_pass = p, j_attempts = a, j_controller = None, j_state = Returning \<rparr>"
  let ?m1 = "m\<lparr> executingChunks := insert (index (chunks m ! c)) (executingChunks m),
               jobs := jobs m @ [?new 1] \<rparr>"
  have st: "j_state (jobs ?m1 ! length (jobs m)) \<noteq> Settled" by simp
  have pl: "pool (uploadChunk_call e (length (jobs m)) ?m1) = pool ?m1"
    using st by (rule pool_uploadChunk_call)
  have pm1: "pool ?m1 = (map executing (passes m),
      map (\<lambda>b. (j_pass b, j_state b = Settled)) (jobs m) @ [(p, False)])"
    by (simp add: pool_def)
  have u: "pool (uploadSingleChunk_call e p c m) = (map executing (passes m),
      map (\<lambda>b. (j_pass b, j_state b = Settled)) (jobs m) @ [(p, False)])"
    unfolding uploadSingleChunk_call_def Let_def using pl pm1 by (simp add: pool_def)
  have pa: "passes (uploadChunk_call e j x) = passes x" for j x
    by (simp add: uploadChunk_call_def Let_def setJob_def setChunk_def)
  have pp: "passes (uploadSingleChunk_call e p c m) = passes m"
    by (simp add: uploadSingleChunk_call_def Let_def pa)
  show "passes m' = (passes m)[p := (passes m ! p)\<lparr> executing := executing (passes m ! p) @ [length (jobs m)] \<rparr>]"
    by (simp add: m'_def setPass_def pp)
  have jm: "map (\<lambda>b. (j_pass b, j_state b = Settled)) (jobs m') =
      map (\<lambda>b. (j_pass b, j_state b = Settled)) (jobs m) @ [(p, False)]"
    using u by (simp add: m'_def setPass_def pool_def)
  then have "length (map (\<lambda>b. (j_pass b, j_state b = Settled)) (jobs m')) = Suc (length (jobs m))"
    by simp
  then show len: "length (jobs m') = Suc (length (jobs m))" by simp
  have nth: "(j_pass (jobs m' ! j), j_state (jobs m' ! j) = Settled) =
      (map (\<lambda>b. (j_pass b, j_state b = Settled)) (jobs m) @ [(p, False)]) ! j"
    if "j < Suc (length (jobs m))" for j
    using jm that len by (metis (no_types, lifting) nth_map)
  show "\<forall>j < length (jobs m). j_pass (jobs m' ! j) = j_pass (jobs m ! j)
                \<and> (j_state (jobs m' ! j) = Settled \<longleftrightarrow> j_state (jobs m ! j) = Settled)"
  proof (intro allI impI)
    fix j assume j: "j < length (jobs m)"
    then have "(j_pass (jobs m' ! j), j_state (jobs m' ! j) = Settled) =
        (j_pass (jobs m ! j), j_state (jobs m ! j) = Settled)"
      using nth[of j] by (simp add: nth_append)
    then show "j_pass (jobs m' ! j) = j_pass (jobs m ! j)
                \<and> (j_state (jobs m' ! j) = Settled \<longleftrightarrow> j_state (jobs m ! j) = Settled)"
      by simp
  qed
  have "(j_pass (jobs m' ! length (jobs m)), j_state (jobs m' ! length (jobs m)) = Settled)
      = (p, False)"
    using nth[of "length (jobs m)"] by (simp add: nth_append)
  then show "j_pass (jobs m' ! length (jobs m)) = p" by simp
  have ia: "isPaused (uploadChunk_call e j x) = isPaused x" for j x
    by (simp add: uploadChunk_call_def Let_def setJob_def setChunk_def)
  show "isPaused m' = isPaused m"
    by (simp add: m'_def setPass_def uploadSingleChunk_call_def Let_def ia)
qed

lemma pool_ok_admitLoop:
  "pool_ok e m \<Longrightarrow> p < length (passes m) \<Longrightarrow>
   length (executing (passes m ! p)) < max 1 (concurrent e) \<Longrightarrow>
   pool_ok e (admitLoop e p cs m)"
proof (induction cs arbitrary: m)
  case Nil
  then show ?case by (simp add: pool_ok_def)
next
  case (Cons c cs)
  show ?case
  proof (cases "isPaused m")
    case True
    then show ?thesis using Cons.prems by (simp add: pool_ok_def)
  next
    case False
    let ?m2 = "setPass p (\<lambda>q. q\<lparr> executing := executing q @ [length (jobs m)] \<rparr>)
                    (uploadSingleChunk_call e p c m)"
    note sh = admit_shape[where p=p and m=m and e=e and c=c]
    have ok2: "pool_ok e ?m2"
      using Cons.prems sh(1,2,3,4) by (rule pool_ok_push)
    have p2: "p < length (passes ?m2)" using sh(1) Cons.prems(2) by simp
    have ex2: "length (executing (passes ?m2 ! p)) = Suc (length (executing (passes m ! p)))"
      using sh(1) Cons.prems(2) by simp
    show ?thesis
    proof (cases "length (executing (passes ?m2 ! p)) \<ge> concurrent e")
      case True
      then show ?thesis using False ok2 by (simp add: Let_def pool_ok_def)
    next
      case no: False
      then have "length (executing (passes ?m2 ! p)) < max 1 (concurrent e)" by simp
      then have "pool_ok e (admitLoop e p cs ?m2)"
        using Cons.IH[OF ok2 p2] by simp
      then show ?thesis using False no by (simp add: Let_def)
    qed
  qed
qed

lemma jobs_finallyDelete [simp]: "jobs (finallyDelete j m) = jobs m"
  by (simp add: finallyDelete_def)

lemma jobs_updateTotalProgress [simp]: "jobs (updateTotalProgress m) = jobs m"
  by (simp add: updateTotalProgress_def split: option.splits)

lemma isPaused_finallyDelete [simp]: "isPaused (finallyDelete j m) = isPaused m"
  by (simp add: finallyDelete_def)

lemma pool_ok_spliceJob:
  assumes ok: "pool_ok e m" and j: "j < length (jobs m)" and st: "j_state (jobs m ! j) \<noteq> Settled"
  shows "pool_ok e (spliceJob j m)"
    and "j_pass (jobs m ! j) < length (passes (spliceJob j m))"
    and "length (executing (passes (spliceJob j m) ! j_pass (jobs m ! j))) < max 1 (concurrent e)"
proof -
  let ?p = "j_pass (jobs m ! j)"
  let ?m' = "spliceJob j m"
  have p: "?p < length (passes m)" and mem: "j \<in> set (executing (passes m ! ?p))"
    using ok j st by (auto simp add: pool_ok_iff)
  have ps: "passes ?m' = (passes m)[?p := (passes m ! ?p)\<lparr> executing := remove1 j (executing (passes m ! ?p)) \<rparr>]"
    by (simp add: spliceJob_def setPass_def setJob_def)
  have js: "jobs ?m' = (jobs m)[j := (jobs m ! j)\<lparr> j_state := Settled \<rparr>]"
    by (simp add: spliceJob_def setPass_def setJob_def)
  show "?p < length (passes ?m')" using p ps by simp
  have "length (remove1 j (executing (passes m ! ?p))) = length (executing (passes m ! ?p)) - 1"
    using mem by (simp add: length_remove1)
  moreover have "0 < length (executing (passes m ! ?p))"
    using mem by (cases "executing (passes m ! ?p)") auto
  moreover have "length (executing (passes m ! ?p)) \<le> max 1 (concurrent e)"
    using ok p by (simp add: pool_ok_iff)
  ultimately show "length (executing (passes ?m' ! ?p)) < max 1 (concurrent e)"
    using ps p by simp
  show "pool_ok e ?m'"
    unfolding pool_ok_iff
  proof (intro conjI allI impI)
    fix q assume "q < length (passes ?m')"
    then have q: "q < length (passes m)" using ps by simp
    have "length (executing (passes m ! q)) \<le> max 1 (concurrent e)"
      using ok q by (simp add: pool_ok_iff)
    moreover have "length (remove1 j (executing (passes m ! q))) \<le> length (executing (passes m ! q))"
      by (simp add: length_remove1)
    ultimately show "length (executing (passes ?m' ! q)) \<le> max 1 (concurrent e)"
      using ps q by (cases "q = ?p") (simp_all add: nth_list_update)
  next
    fix i assume i: "i < length (jobs ?m')" and si: "j_state (jobs ?m' ! i) \<noteq> Settled"
    have i': "i < length (jobs m)" using i js by simp
    have ne: "i \<noteq> j" using si js i' by (auto simp add: nth_list_update)
    then have same: "jobs ?m' ! i = jobs m ! i" using js by simp
    then have a: "j_pass (jobs m ! i) < length (passes m)"
      "i \<in> set (executing (passes m ! j_pass (jobs m ! i)))"
      using ok i' si by (auto simp add: pool_ok_iff)
    show "j_pass (jobs ?m' ! i) < length (passes ?m')" using same a ps by simp
    show "i \<in> set (executing (passes ?m' ! j_pass (jobs ?m' ! i)))"
      using same a ps ne by (cases "j_pass (jobs m ! i) = ?p") (simp_all add: nth_list_update)
  qed
qed

lemma pool_ok_raceResolved:
  assumes "pool_ok e m" "p < length (passes m)"
    "length (executing (passes m ! p)) < max 1 (concurrent e)"
  shows "pool_ok e (raceResolved e p m)"
proof (cases "control (passes m ! p)")
  case Racing
  then show ?thesis using assms by (simp add: raceResolved_def pool_ok_admitLoop)
next
  case Settling
  then show ?thesis using assms(1) by (simp add: raceResolved_def pool_ok_def)
next
  case Finished
  then show ?thesis using assms(1) by (simp add: raceResolved_def)
next
  case (Failed x)
  then show ?thesis using assms(1) by (simp add: raceResolved_def)
qed

lemma pool_raceRejected [simp]: "pool (raceRejected p x m) = pool m"
  by (simp add: raceRejected_def split: control.splits)

lemma jobs_nth_finallyDelete: "jobs (finallyDelete i m) ! j = jobs m ! j"
  by simp

lemma pool_ok_promiseResolved:
  assumes "pool_ok e m" "j < length (jobs m)" "j_state (jobs m ! j) \<noteq> Settled"
  shows "pool_ok e (promiseResolved e j m)"
  unfolding promiseResolved_def
  using pool_ok_spliceJob[OF assms] by (rule pool_ok_raceResolved)

lemma pool_ok_promiseRejected:
  assumes "pool_ok e m" "j < length (jobs m)" "j_state (jobs m ! j) \<noteq> Settled"
  shows "pool_ok e (promiseRejected e j x m)"
proof (cases "isPaused m")
  case True
  have "pool_ok e (raceResolved e (j_pass (jobs m ! j)) (spliceJob j m))"
    using pool_ok_spliceJob[OF assms] by (rule pool_ok_raceResolved)
  then show ?thesis using True by (simp add: promiseRejected_def)
next
  case False
  then show ?thesis using pool_ok_spliceJob(1)[OF assms]
    by (simp add: promiseRejected_def pool_ok_def)
qed

lemma pool_ok_finallyDelete [simp]: "pool_ok e (finallyDelete j m) = pool_ok e m"
  by (simp add: pool_ok_def)

lemma pool_ok_uploadResolved:
  assumes "pool_ok e m" "j < length (jobs m)" "j_state (jobs m ! j) \<noteq> Settled"
  shows "pool_ok e (uploadResolved e j m)"
  unfolding uploadResolved_def using assms by (intro pool_ok_promiseResolved) simp_all

lemma pool_ok_uploadRejected:
  assumes "pool_ok e m" "j < length (jobs m)" "j_state (jobs m ! j) \<noteq> Settled"
  shows "pool_ok e (uploadRejected e j x m)"
  unfolding uploadRejected_def using assms
  by (auto intro!: pool_ok_promiseResolved pool_ok_promiseRejected)

lemma pool_ok_retryLoopExit:
  assumes "pool_ok e m" "j < length (jobs m)" "j_state (jobs m ! j) \<noteq> Settled"
  shows "pool_ok e (retryLoopExit e j m)"
  unfolding retryLoopExit_def using assms
  by (auto intro!: pool_ok_promiseResolved pool_ok_uploadRejected)

lemma pool_ok_uploadReturnedFalse:
  assumes "pool_ok e m" "j < length (jobs m)" "j_state (jobs m ! j) \<noteq> Settled"
  shows "pool_ok e (uploadReturnedFalse e j m)"
proof (cases "j_attempts (jobs m ! j) < retryTimes e \<and> \<not> isPaused m")
  case True
  have "pool (setJob j (\<lambda>b. b\<lparr> j_state := Delaying (1000 * j_attempts b) \<rparr>) m) = pool m"
    using assms(3) by (intro pool_setJob_unsettled) simp_all
  then show ?thesis using True assms(1) by (simp add: uploadReturnedFalse_def pool_ok_def)
next
  case False
  then show ?thesis using pool_ok_retryLoopExit[OF assms]
    by (auto simp add: uploadReturnedFalse_def)
qed

lemma pool_ok_delayElapsed:
  assumes "pool_ok e m" "j < length (jobs m)" "j_state (jobs m ! j) \<noteq> Settled"
  shows "pool_ok e (delayElapsed e j m)"
proof (cases "j_attempts (jobs m ! j) < retryTimes e \<and> \<not> isPaused m")
  case True
  let ?m1 = "setJob j (\<lambda>b. b\<lparr> j_attempts := j_attempts b + 1 \<rparr>) m"
  have p1: "pool ?m1 = pool m"
    using assms(3) by (intro pool_setJob_unsettled) simp_all
  have "j_state (jobs ?m1 ! j) \<noteq> Settled"
    using assms(2,3) by (simp add: setJob_def)
  then have "pool (uploadChunk_call e j ?m1) = pool ?m1"
    by (rule pool_uploadChunk_call)
  then show ?thesis using True assms(1) p1 by (simp add: delayElapsed_def pool_ok_def)
next
  case False
  then show ?thesis using pool_ok_retryLoopExit[OF assms]
    by (auto simp add: delayElapsed_def)
qed

lemma pool_ok_deliver: "pool_ok e m \<Longrightarrow> pool_ok e (deliver e m j)"
  unfolding deliver_def
  by (auto split: job_state.splits
      intro!: pool_ok_promiseResolved pool_ok_uploadRejected pool_ok_uploadReturnedFalse)

lemma pool_ok_foldl_deliver: "pool_ok e m \<Longrightarrow> pool_ok e (foldl (deliver e) m js)"
  by (induction js arbitrary: m) (simp_all add: pool_ok_deliver)

lemma pool_ok_flush: "pool_ok e m \<Longrightarrow> pool_ok e (flush e m)"
  by (simp add: flush_def pool_ok_foldl_deliver)

lemma pool_ok_uploadChunksConcurrently:
  assumes "pool_ok e m"
  shows "pool_ok e (uploadChunksConcurrently e who m)"
proof -
  let ?new = "\<lambda>pending. \<lparr> pendingChunks = pending, executing = [], control = Racing, caller = who \<rparr>"
  have "pool_ok e (m\<lparr> passes := passes m @ [?new pending] \<rparr>)" for pending
    using assms unfolding pool_ok_iff by (auto simp add: nth_append)
  then show ?thesis
    unfolding uploadChunksConcurrently_def Let_def
    by (intro pool_ok_admitLoop) (simp_all add: nth_append)
qed

lemma pool_fields: "passes m' = passes m \<Longrightarrow> jobs m' = jobs m \<Longrightarrow> pool m' = pool m"
  by (simp add: pool_def)

lemma passes_updateTotalProgress [simp]: "passes (updateTotalProgress m) = passes m"
  by (simp add: updateTotalProgress_def split: option.splits)

lemma spawnMarking_runtime [simp]:
  "passes (spawnMarking e fileSize s m) = passes m"
  "jobs (spawnMarking e fileSize s m) = jobs m"
  by (simp_all add: spawnMarking_def)

lemma pool_checkUploadStatus [simp]: "pool (snd (checkUploadStatus e resp m)) = pool m"
  by (rule pool_fields)
    (simp_all add: checkUploadStatus_def Let_def split: option.splits fetched.splits)

lemma pool_initializeUpload [simp]: "pool (snd (initializeUpload resp m)) = pool m"
  by (rule pool_fields)
    (simp_all add: initializeUpload_def Let_def split: fetched.splits)

lemma pool_ok_completeUpload_call [simp]: "pool_ok e (completeUpload_call m) = pool_ok e m"
  by (simp add: pool_ok_def)

lemma pool_ok_callerThrew [simp]: "pool_ok e (callerThrew x m) = pool_ok e m"
  by (simp add: pool_ok_def)

lemma pool_ok_callerReturned [simp]: "pool_ok e (callerReturned x m) = pool_ok e m"
  by (simp add: pool_ok_def)

lemma pool_ok_updateTotalProgress [simp]: "pool_ok e (updateTotalProgress m) = pool_ok e m"
  by (simp add: pool_ok_def)

lemma pool_ok_startUpload:
  assumes "pool_ok e m"
  shows "pool_ok e (startUpload e check init m)"
proof (cases "currentFile m")
  case None
  have "pool (m\<lparr> returned := r \<rparr>) = pool m" for r by (simp add: pool_def)
  then show ?thesis using None assms by (simp add: startUpload_def pool_ok_def)
next
  case (Some fileSize)
  show ?thesis
  proof (cases "fileHash m = []")
    case True
    have "pool (m\<lparr> returned := r \<rparr>) = pool m" for r by (simp add: pool_def)
    then show ?thesis using True Some assms by (simp add: startUpload_def pool_ok_def)
  next
    case False
    let ?m1 = "m\<lparr> speedInfo := fst resetNetworkStats,
                 networkStats := (snd resetNetworkStats)\<lparr> totalBytes := fileSize \<rparr>,
                 isUploading := True, isCompleted := False,
                 isPaused := False, isSecondTransfer := False \<rparr>"
    have p1: "pool ?m1 = pool m" by (simp add: pool_def)
    obtain res m2 where c: "checkUploadStatus e check ?m1 = (res, m2)"
      by (cases "checkUploadStatus e check ?m1") auto
    have p2: "pool m2 = pool m"
      using pool_checkUploadStatus[of e check ?m1] c p1 by simp
    then have ok2: "pool_ok e m2" using assms by (simp add: pool_ok_def)
    show ?thesis
    proof (cases res)
      case (Inl x)
      then show ?thesis using Some False c ok2 by (simp add: startUpload_def Let_def)
    next
      case (Inr r)
      show ?thesis
      proof (cases "fileExists r \<and> isComplete r")
        case True
        have "pool (m2\<lparr> isCompleted := True, isSecondTransfer := True \<rparr>) = pool m2"
          by (simp add: pool_def)
        then show ?thesis using True Inr Some False c ok2
          by (simp add: startUpload_def Let_def pool_ok_def)
      next
        case no: False
        let ?plan = "(if uploadSession m2 = None
                            then (case initializeUpload init m2 of
                                    (Inl x, m3) \<Rightarrow> (Some x, m3)
                                  | (Inr s, m3) \<Rightarrow>
                                      (None, m3\<lparr> uploadSession := s,
                                                  chunks := createChunks (chunkSize e) fileSize \<rparr>))
                            else (None, m2))"
        obtain err m3 where pl: "?plan = (err, m3)" by (cases ?plan) auto
        have p3: "pool m3 = pool m2"
        proof (cases "uploadSession m2 = None")
          case True
          obtain ri mi where i: "initializeUpload init m2 = (ri, mi)"
            by (cases "initializeUpload init m2") auto
          have pi: "pool mi = pool m2" using pool_initializeUpload[of init m2] i by simp
          have "pool (mi\<lparr> uploadSession := s, chunks := cs \<rparr>) = pool mi" for s cs
            by (simp add: pool_def)
          then show ?thesis using pl True i pi by (cases ri) auto
        next
          case False
          then have "(err, m3) = (None, m2)" using pl by (simp split: if_splits)
          then show ?thesis by simp
        qed
        then have ok3: "pool_ok e m3" using ok2 by (simp add: pool_ok_def)
        have fin: "pool_ok e (case err of
               Some x \<Rightarrow> callerThrew x m3
             | None \<Rightarrow>
                 let m4 = updateTotalProgress m3 in
                 if length (uploadedChunks m4) = length (chunks m4)
                 then completeUpload_call m4
                 else uploadChunksConcurrently e ByStartUpload m4)"
          using ok3 by (cases err) (simp_all add: Let_def pool_ok_uploadChunksConcurrently)
        have "startUpload e check init m = (case ?plan of
               (Some x, m3) \<Rightarrow> callerThrew x m3
             | (None, m3) \<Rightarrow>
                 let m4 = updateTotalProgress m3 in
                 if length (uploadedChunks m4) = length (chunks m4)
                 then completeUpload_call m4
                 else uploadChunksConcurrently e ByStartUpload m4)"
          unfolding startUpload_def Let_def
          by (simp only: Some option.case False if_False c Inr sum.case prod.case no)
        then show ?thesis using fin pl by (simp only: prod.case)
      qed
    qed
  qed
qed

lemma pool_ok_resumeUpload:
  assumes "pool_ok e m"
  shows "pool_ok e (resumeUpload e m)"
proof (cases "currentFile m = None \<or> isCompleted m")
  case True
  have "pool (m\<lparr> returned := r \<rparr>) = pool m" for r by (simp add: pool_def)
  then show ?thesis using True assms by (simp add: resumeUpload_def pool_ok_def)
next
  case False
  have "pool (m\<lparr> isPaused := False, isUploading := True, executingChunks := {} \<rparr>) = pool m"
    by (simp add: pool_def)
  then have "pool_ok e (fold resetInterrupted [0 ..< length (chunks m)]
             (m\<lparr> isPaused := False, isUploading := True, executingChunks := {} \<rparr>))"
    using assms by (simp add: pool_ok_def)
  then have "pool_ok e (uploadChunksConcurrently e ByResumeUpload
          (fold resetInterrupted [0 ..< length (chunks m)]
             (m\<lparr> isPaused := False, isUploading := True, executingChunks := {} \<rparr>)))"
    by (rule pool_ok_uploadChunksConcurrently)
  then show ?thesis unfolding resumeUpload_def by (simp only: False if_False)
qed

lemma pool_ok_handle:
  assumes "pool_ok e m"
  shows "pool_ok e (handle e ev m)"
proof (cases ev)
  case (StartUpload check init)
  then show ?thesis using assms by (simp add: pool_ok_startUpload)
next
  case ResumeUpload
  then show ?thesis using assms by (simp add: pool_ok_resumeUpload)
next
  case PauseUpload
  then show ?thesis using assms by (simp add: pool_ok_def)
next
  case (XhrProgress j l t now)
  then show ?thesis using assms by (simp add: pool_ok_def)
next
  case (XhrLoad j)
  show ?thesis
  proof (cases "uploading m j")
    case True
    let ?m1 = "updateTotalProgress
          (setChunk (j_chunk (jobs m ! j)) (\<lambda>ch. ch\<lparr> uploaded := True, progress := 100 \<rparr>)
             (m\<lparr> acknowledged :=
                    acknowledged m @ [index (chunks m ! j_chunk (jobs m ! j))] \<rparr>))"
    have "pool (m\<lparr> acknowledged := a \<rparr>) = pool m" for a by (simp add: pool_def)
    then have "pool_ok e ?m1" using assms by (simp add: pool_ok_def)
    moreover have "j < length (jobs ?m1)" "j_state (jobs ?m1 ! j) \<noteq> Settled"
      using True by (simp_all add: uploading_def)
    ultimately have "pool_ok e (uploadResolved e j ?m1)" by (rule pool_ok_uploadResolved)
    then show ?thesis using True XhrLoad by (simp add: onLoad_def)
  next
    case False
    then show ?thesis using assms XhrLoad by simp
  qed
next
  case (XhrFailed j x)
  then show ?thesis using assms
    by (auto simp add: uploading_def intro!: pool_ok_uploadRejected)
next
  case (XhrTimeout j)
  then show ?thesis using assms
    by (auto simp add: uploading_def onTimeout_def intro!: pool_ok_uploadRejected)
next
  case (DelayElapsed j)
  then show ?thesis using assms
    by (auto simp add: delaying_def split: job_state.splits intro!: pool_ok_delayElapsed)
next
  case (CompleteResponse r)
  then show ?thesis using assms by (simp add: pool_ok_def)
qed

lemma pool_ok_step: "pool_ok e m \<Longrightarrow> pool_ok e (step e m ev)"
  by (simp add: step_def pool_ok_flush pool_ok_handle)

lemma pool_ok_run: "pool_ok e m \<Longrightarrow> pool_ok e (run e evs m)"
  unfolding run_def by (induction evs arbitrary: m) (simp_all add: pool_ok_step)

lemma pool_ok_initial: "jobs m = [] \<Longrightarrow> passes m = [] \<Longrightarrow> pool_ok e m"
  by (simp add: pool_ok_iff)

lemma inFlightOf_le_executing:
  assumes "pool_ok e m" "p < length (passes m)"
  shows "length (inFlightOf p m) \<le> length (executing (passes m ! p))"
proof -
  have d: "distinct (inFlightOf p m)"
    by (simp add: inFlightOf_def inFlight_def)
  have "set (inFlightOf p m) \<subseteq> set (executing (passes m ! p))"
    using assms(1) by (auto simp add: inFlightOf_def inFlight_def pool_ok_iff)
  then have "card (set (inFlightOf p m)) \<le> card (set (executing (passes m ! p)))"
    by (simp add: card_mono)
  also have "\<dots> \<le> length (executing (passes m ! p))" by (rule card_length)
  finally show ?thesis using d by (simp add: distinct_card)
qed

lemma inFlight_single_pass:
  assumes "pool_ok e m" "length (passes m) = 1"
  shows "inFlight m = inFlightOf 0 m"
proof -
  have "\<forall>j \<in> set (inFlight m). j_pass (jobs m ! j) = 0"
    using assms by (auto simp add: inFlight_def pool_ok_iff)
  then show ?thesis by (simp add: inFlightOf_def)
qed

subsection \<open>The pool invariant of the local hook\<close>

lemma pool_ok_local_iff:
  "pool_ok_local e m =
     ((\<forall>p < length (passes_local m).
          length (executing (passes_local m ! p)) \<le> max 1 (concurrent e))
    \<and> (\<forall>j < length (jobs_local m). j_state (jobs_local m ! j) \<noteq> Settled \<longrightarrow>
           j_pass (jobs_local m ! j) < length (passes_local m)
         \<and> j \<in> set (executing (passes_local m ! j_pass (jobs_local m ! j)))))"
  by (auto simp add: pool_ok_local_def pool_inv_def pool_local_def)

lemma pool_local_fields:
  "passes_local m' = passes_local m \<Longrightarrow> jobs_local m' = jobs_local m
   \<Longrightarrow> pool_local m' = pool_local m"
  by (simp add: pool_local_def)

lemma pool_local_setChunk [simp]: "pool_local (setChunk_local a f m) = pool_local m"
  by (simp add: pool_local_def setChunk_local_def)

lemma pool_local_assignChunks [simp]: "pool_local (assignChunks_local cs m) = pool_local m"
  by (simp add: pool_local_def assignChunks_local_def)

lemma pool_local_updateTotalProgress [simp]:
  "pool_local (updateTotalProgress_local m) = pool_local m"
  by (simp add: pool_local_def updateTotalProgress_local_def split: option.splits)

lemma pool_local_callerThrew [simp]: "pool_local (callerThrew_local x m) = pool_local m"
  by (simp add: pool_local_def callerThrew_local_def)

lemma pool_local_mergeChunks_call [simp]: "pool_local (mergeChunks_call_local m) = pool_local m"
  by (simp add: pool_local_def mergeChunks_call_local_def)

lemma pool_local_setPass_control [simp]:
  "pool_local (setPass_local p (\<lambda>q. q\<lparr> control := x \<rparr>) m) = pool_local m"
  "pool_local (setPass_local p (\<lambda>q. q\<lparr> pendingChunks := cs \<rparr>) m) = pool_local m"
  "pool_local (setPass_local p (\<lambda>q. q\<lparr> pendingChunks := cs, control := x \<rparr>) m) = pool_local m"
  by (simp_all add: pool_local_def setPass_local_def map_list_update_same)

lemma pool_local_passReturned [simp]: "pool_local (passReturned_local p m) = pool_local m"
  by (simp add: passReturned_local_def)

lemma pool_local_passThrew [simp]: "pool_local (passThrew_local p x m) = pool_local m"
  by (simp add: passThrew_local_def)

lemma pool_local_awaitAll [simp]: "pool_local (awaitAll_local p m) = pool_local m"
  by (simp add: awaitAll_local_def)

lemma pool_local_pauseUpload [simp]: "pool_local (pauseUpload_local m) = pool_local m"
  by (simp add: pauseUpload_local_def pool_local_def)

lemma pool_local_onProgress [simp]: "pool_local (onProgress_local j l t now m) = pool_local m"
  by (simp add: onProgress_local_def Let_def) (simp add: pool_local_def setChunk_local_def)

lemma pool_local_onMergeResponse [simp]:
  "pool_local (onMergeResponse_local r m) = pool_local m"
  by (simp add: onMergeResponse_local_def Let_def split: complete_result.splits)
    (simp add: pool_local_def)

lemma pool_local_setJob_unsettled:
  assumes "j_pass (f (jobs_local m ! j)) = j_pass (jobs_local m ! j)"
    and "j_state (jobs_local m ! j) \<noteq> Settled" and "j_state (f (jobs_local m ! j)) \<noteq> Settled"
  shows "pool_local (setJob_local j f m) = pool_local m"
  using assms by (simp add: pool_local_def setJob_local_def map_list_update_same)

lemma jobs_local_setChunk [simp]: "jobs_local (setChunk_local a f m) = jobs_local m"
  by (simp add: setChunk_local_def)

lemma pool_local_uploadChunk_call:
  assumes "j_state (jobs_local m ! j) \<noteq> Settled"
  shows "pool_local (uploadChunk_call_local e j m) = pool_local m"
proof -
  have a: "pool_local (m\<lparr>requests_local := r\<rparr>) = pool_local m" for r
    by (simp add: pool_local_def)
  show ?thesis
    using assms unfolding uploadChunk_call_local_def Let_def
    by (simp add: pool_local_setJob_unsettled a)
qed

lemma pool_ok_local_push:
  assumes ok: "pool_ok_local e m" and p: "p < length (passes_local m)"
    and room: "length (executing (passes_local m ! p)) < max 1 (concurrent e)"
    and m': "passes_local m' = (passes_local m)[p := (passes_local m ! p)
               \<lparr> executing := executing (passes_local m ! p) @ [length (jobs_local m)] \<rparr>]"
    and len: "length (jobs_local m') = Suc (length (jobs_local m))"
    and old: "\<forall>j < length (jobs_local m).
                j_pass (jobs_local m' ! j) = j_pass (jobs_local m ! j)
                \<and> (j_state (jobs_local m' ! j) = Settled
                     \<longleftrightarrow> j_state (jobs_local m ! j) = Settled)"
    and new: "j_pass (jobs_local m' ! length (jobs_local m)) = p"
  shows "pool_ok_local e m'"
  unfolding pool_ok_local_iff
proof (intro conjI allI impI)
  fix q assume "q < length (passes_local m')"
  then have q: "q < length (passes_local m)" using m' by simp
  show "length (executing (passes_local m' ! q)) \<le> max 1 (concurrent e)"
  proof (cases "q = p")
    case True
    then show ?thesis using m' p room by simp
  next
    case False
    then show ?thesis using m' q ok by (simp add: pool_ok_local_iff)
  qed
next
  fix j assume j: "j < length (jobs_local m')" and st: "j_state (jobs_local m' ! j) \<noteq> Settled"
  show "j_pass (jobs_local m' ! j) < length (passes_local m')"
  proof (cases "j < length (jobs_local m)")
    case True
    then show ?thesis using old st ok m' by (simp add: pool_ok_local_iff)
  next
    case False
    then have "j = length (jobs_local m)" using j len by simp
    then show ?thesis using new p m' by simp
  qed
  show "j \<in> set (executing (passes_local m' ! j_pass (jobs_local m' ! j)))"
  proof (cases "j < length (jobs_local m)")
    case True
    then have a: "j_pass (jobs_local m' ! j) = j_pass (jobs_local m ! j)"
      "j_state (jobs_local m ! j) \<noteq> Settled"
      using old st by auto
    then have b: "j_pass (jobs_local m ! j) < length (passes_local m)"
      "j \<in> set (executing (passes_local m ! j_pass (jobs_local m ! j)))"
      using ok True by (auto simp add: pool_ok_local_iff)
    show ?thesis
    proof (cases "j_pass (jobs_local m ! j) = p")
      case True
      then show ?thesis using a b m' p by simp
    next
      case False
      then show ?thesis using a b m' by simp
    qed
  next
    case False
    then have "j = length (jobs_local m)" using j len by simp
    then show ?thesis using new p m' by simp
  qed
qed

lemma admit_shape_local:
  fixes e p a m
  defines "m' \<equiv> setPass_local p
                    (\<lambda>q. q\<lparr> executing := executing q @ [length (jobs_local m)] \<rparr>)
                    (uploadSingleChunk_call_local e p a m)"
  shows "passes_local m' = (passes_local m)[p := (passes_local m ! p)
           \<lparr> executing := executing (passes_local m ! p) @ [length (jobs_local m)] \<rparr>]"
    and "length (jobs_local m') = Suc (length (jobs_local m))"
    and "\<forall>j < length (jobs_local m).
           j_pass (jobs_local m' ! j) = j_pass (jobs_local m ! j)
           \<and> (j_state (jobs_local m' ! j) = Settled \<longleftrightarrow> j_state (jobs_local m ! j) = Settled)"
    and "j_pass (jobs_local m' ! length (jobs_local m)) = p"
    and "isPaused_local m' = isPaused_local m"
proof -
  let ?new = "\<lambda>n. \<lparr> j_chunk = a, j_pass = p, j_attempts = n, j_controller = None,
                    j_state = Returning \<rparr>"
  let ?m1 = "m\<lparr> jobs_local := jobs_local m @ [?new 1] \<rparr>"
  let ?target = "(map executing (passes_local m),
      map (\<lambda>b. (j_pass b, j_state b = Settled)) (jobs_local m) @ [(p, False)])"
  have st: "j_state (jobs_local ?m1 ! length (jobs_local m)) \<noteq> Settled" by simp
  have pl: "pool_local (uploadChunk_call_local e (length (jobs_local m)) ?m1) = pool_local ?m1"
    using st by (rule pool_local_uploadChunk_call)
  have pm1: "pool_local ?m1 = ?target"
    by (simp add: pool_local_def)
  have u: "pool_local (uploadSingleChunk_call_local e p a m) = ?target"
    unfolding uploadSingleChunk_call_local_def Let_def using pl pm1
    by (simp add: pool_local_def)
  have pa: "passes_local (uploadChunk_call_local e j x) = passes_local x" for j x
    by (simp add: uploadChunk_call_local_def Let_def setJob_local_def setChunk_local_def)
  have pp: "passes_local (uploadSingleChunk_call_local e p a m) = passes_local m"
    by (simp add: uploadSingleChunk_call_local_def Let_def pa)
  show "passes_local m' = (passes_local m)[p := (passes_local m ! p)
           \<lparr> executing := executing (passes_local m ! p) @ [length (jobs_local m)] \<rparr>]"
    by (simp add: m'_def setPass_local_def pp)
  have jm: "map (\<lambda>b. (j_pass b, j_state b = Settled)) (jobs_local m') =
      map (\<lambda>b. (j_pass b, j_state b = Settled)) (jobs_local m) @ [(p, False)]"
    using u by (simp add: m'_def setPass_local_def pool_local_def)
  then have "length (map (\<lambda>b. (j_pass b, j_state b = Settled)) (jobs_local m'))
      = Suc (length (jobs_local m))"
    by simp
  then show len: "length (jobs_local m') = Suc (length (jobs_local m))" by simp
  have nth: "(j_pass (jobs_local m' ! j), j_state (jobs_local m' ! j) = Settled) =
      (map (\<lambda>b. (j_pass b, j_state b = Settled)) (jobs_local m) @ [(p, False)]) ! j"
    if "j < Suc (length (jobs_local m))" for j
    using jm that len by (metis (no_types, lifting) nth_map)
  show "\<forall>j < length (jobs_local m).
           j_pass (jobs_local m' ! j) = j_pass (jobs_local m ! j)
           \<and> (j_state (jobs_local m' ! j) = Settled \<longleftrightarrow> j_state (jobs_local m ! j) = Settled)"
  proof (intro allI impI)
    fix j assume j: "j < length (jobs_local m)"
    then have "(j_pass (jobs_local m' ! j), j_state (jobs_local m' ! j) = Settled) =
        (j_pass (jobs_local m ! j), j_state (jobs_local m ! j) = Settled)"
      using nth[of j] by (simp add: nth_append)
    then show "j_pass (jobs_local m' ! j) = j_pass (jobs_local m ! j)
           \<and> (j_state (jobs_local m' ! j) = Settled \<longleftrightarrow> j_state (jobs_local m ! j) = Settled)"
      by simp
  qed
  have "(j_pass (jobs_local m' ! length (jobs_local m)),
         j_state (jobs_local m' ! length (jobs_local m)) = Settled) = (p, False)"
    using nth[of "length (jobs_local m)"] by (simp add: nth_append)
  then show "j_pass (jobs_local m' ! length (jobs_local m)) = p" by simp
  have ia: "isPaused_local (uploadChunk_call_local e j x) = isPaused_local x" for j x
    by (simp add: uploadChunk_call_local_def Let_def setJob_local_def setChunk_local_def)
  show "isPaused_local m' = isPaused_local m"
    by (simp add: m'_def setPass_local_def uploadSingleChunk_call_local_def Let_def ia)
qed

lemma pool_ok_local_admitLoop:
  "pool_ok_local e m \<Longrightarrow> p < length (passes_local m) \<Longrightarrow>
   length (executing (passes_local m ! p)) < max 1 (concurrent e) \<Longrightarrow>
   pool_ok_local e (admitLoop_local e p as m)"
proof (induction as arbitrary: m)
  case Nil
  then show ?case by (simp add: pool_ok_local_def)
next
  case (Cons a as)
  show ?case
  proof (cases "isPaused_local m")
    case True
    then show ?thesis using Cons.prems by (simp add: pool_ok_local_def)
  next
    case False
    let ?m2 = "setPass_local p
                 (\<lambda>q. q\<lparr> executing := executing q @ [length (jobs_local m)] \<rparr>)
                 (uploadSingleChunk_call_local e p a m)"
    note sh = admit_shape_local[where p=p and m=m and e=e and a=a]
    have ok2: "pool_ok_local e ?m2"
      using Cons.prems sh(1,2,3,4) by (rule pool_ok_local_push)
    have p2: "p < length (passes_local ?m2)" using sh(1) Cons.prems(2) by simp
    have ex2: "length (executing (passes_local ?m2 ! p))
        = Suc (length (executing (passes_local m ! p)))"
      using sh(1) Cons.prems(2) by simp
    show ?thesis
    proof (cases "length (executing (passes_local ?m2 ! p)) \<ge> concurrent e")
      case True
      then show ?thesis using False ok2 by (simp add: Let_def pool_ok_local_def)
    next
      case no: False
      then have "length (executing (passes_local ?m2 ! p)) < max 1 (concurrent e)" by simp
      then have "pool_ok_local e (admitLoop_local e p as ?m2)"
        using Cons.IH[OF ok2 p2] by simp
      then show ?thesis using False no by (simp add: Let_def)
    qed
  qed
qed

lemma pool_ok_local_settle:
  assumes ok: "pool_ok_local e m"
  shows "pool_ok_local e (setJob_local j (\<lambda>b. b\<lparr> j_state := Settled \<rparr>) m)"
  unfolding pool_ok_local_iff
proof (intro conjI allI impI)
  let ?m' = "setJob_local j (\<lambda>b. b\<lparr> j_state := Settled \<rparr>) m"
  have ps: "passes_local ?m' = passes_local m" by (simp add: setJob_local_def)
  have js: "jobs_local ?m' = (jobs_local m)[j := (jobs_local m ! j)\<lparr> j_state := Settled \<rparr>]"
    by (simp add: setJob_local_def)
  fix q assume "q < length (passes_local ?m')"
  then show "length (executing (passes_local ?m' ! q)) \<le> max 1 (concurrent e)"
    using ok ps by (simp add: pool_ok_local_iff)
next
  let ?m' = "setJob_local j (\<lambda>b. b\<lparr> j_state := Settled \<rparr>) m"
  have ps: "passes_local ?m' = passes_local m" by (simp add: setJob_local_def)
  have js: "jobs_local ?m' = (jobs_local m)[j := (jobs_local m ! j)\<lparr> j_state := Settled \<rparr>]"
    by (simp add: setJob_local_def)
  fix i assume i: "i < length (jobs_local ?m')" and si: "j_state (jobs_local ?m' ! i) \<noteq> Settled"
  have i': "i < length (jobs_local m)" using i js by simp
  have ne: "i \<noteq> j" using si js i' by (auto simp add: nth_list_update)
  then have same: "jobs_local ?m' ! i = jobs_local m ! i" using js by simp
  then have a: "j_pass (jobs_local m ! i) < length (passes_local m)"
    "i \<in> set (executing (passes_local m ! j_pass (jobs_local m ! i)))"
    using ok i' si by (auto simp add: pool_ok_local_iff)
  show "j_pass (jobs_local ?m' ! i) < length (passes_local ?m')" using same a ps by simp
  show "i \<in> set (executing (passes_local ?m' ! j_pass (jobs_local ?m' ! i)))"
    using same a ps by simp
qed

lemma pool_ok_local_splice:
  fixes j m
  defines "m' \<equiv> setPass_local (j_pass (jobs_local m ! j))
                   (\<lambda>q. q\<lparr> executing := remove1 j (executing q) \<rparr>)
                   (setJob_local j (\<lambda>b. b\<lparr> j_state := Settled \<rparr>) m)"
  assumes ok: "pool_ok_local e m" and j: "j < length (jobs_local m)"
    and st: "j_state (jobs_local m ! j) \<noteq> Settled"
  shows "pool_ok_local e m'"
    and "j_pass (jobs_local m ! j) < length (passes_local m')"
    and "length (executing (passes_local m' ! j_pass (jobs_local m ! j))) < max 1 (concurrent e)"
proof -
  let ?p = "j_pass (jobs_local m ! j)"
  have p: "?p < length (passes_local m)"
    and mem: "j \<in> set (executing (passes_local m ! ?p))"
    using ok j st by (auto simp add: pool_ok_local_iff)
  have ps: "passes_local m' = (passes_local m)[?p := (passes_local m ! ?p)
              \<lparr> executing := remove1 j (executing (passes_local m ! ?p)) \<rparr>]"
    by (simp add: m'_def setPass_local_def setJob_local_def)
  have js: "jobs_local m' = (jobs_local m)[j := (jobs_local m ! j)\<lparr> j_state := Settled \<rparr>]"
    by (simp add: m'_def setPass_local_def setJob_local_def)
  show "?p < length (passes_local m')" using p ps by simp
  have "length (remove1 j (executing (passes_local m ! ?p)))
      = length (executing (passes_local m ! ?p)) - 1"
    using mem by (simp add: length_remove1)
  moreover have "0 < length (executing (passes_local m ! ?p))"
    using mem by (cases "executing (passes_local m ! ?p)") auto
  moreover have "length (executing (passes_local m ! ?p)) \<le> max 1 (concurrent e)"
    using ok p by (simp add: pool_ok_local_iff)
  ultimately show "length (executing (passes_local m' ! ?p)) < max 1 (concurrent e)"
    using ps p by simp
  show "pool_ok_local e m'"
    unfolding pool_ok_local_iff
  proof (intro conjI allI impI)
    fix q assume "q < length (passes_local m')"
    then have q: "q < length (passes_local m)" using ps by simp
    have "length (executing (passes_local m ! q)) \<le> max 1 (concurrent e)"
      using ok q by (simp add: pool_ok_local_iff)
    moreover have "length (remove1 j (executing (passes_local m ! q)))
        \<le> length (executing (passes_local m ! q))"
      by (simp add: length_remove1)
    ultimately show "length (executing (passes_local m' ! q)) \<le> max 1 (concurrent e)"
      using ps q by (cases "q = ?p") (simp_all add: nth_list_update)
  next
    fix i assume i: "i < length (jobs_local m')" and si: "j_state (jobs_local m' ! i) \<noteq> Settled"
    have i': "i < length (jobs_local m)" using i js by simp
    have ne: "i \<noteq> j" using si js i' by (auto simp add: nth_list_update)
    then have same: "jobs_local m' ! i = jobs_local m ! i" using js by simp
    then have a: "j_pass (jobs_local m ! i) < length (passes_local m)"
      "i \<in> set (executing (passes_local m ! j_pass (jobs_local m ! i)))"
      using ok i' si by (auto simp add: pool_ok_local_iff)
    show "j_pass (jobs_local m' ! i) < length (passes_local m')" using same a ps by simp
    show "i \<in> set (executing (passes_local m' ! j_pass (jobs_local m' ! i)))"
      using same a ps ne
      by (cases "j_pass (jobs_local m ! i) = ?p") (simp_all add: nth_list_update)
  qed
qed

lemma pool_ok_local_promiseResolved:
  assumes "pool_ok_local e m" "j < length (jobs_local m)" "j_state (jobs_local m ! j) \<noteq> Settled"
  shows "pool_ok_local e (promiseResolved_local e j m)"
proof -
  let ?p = "j_pass (jobs_local m ! j)"
  let ?m1 = "setPass_local ?p (\<lambda>q. q\<lparr> executing := remove1 j (executing q) \<rparr>)
               (setJob_local j (\<lambda>b. b\<lparr> j_state := Settled \<rparr>) m)"
  note sp = pool_ok_local_splice[OF assms]
  have "pool_ok_local e (case control (passes_local ?m1 ! ?p) of
           Racing \<Rightarrow> admitLoop_local e ?p (pendingChunks (passes_local ?m1 ! ?p)) ?m1
         | Settling \<Rightarrow> awaitAll_local ?p ?m1
         | _ \<Rightarrow> ?m1)"
  proof (cases "control (passes_local ?m1 ! ?p)")
    case Racing
    then show ?thesis using sp by (simp add: pool_ok_local_admitLoop)
  next
    case Settling
    then show ?thesis using sp(1) by (simp add: pool_ok_local_def)
  next
    case Finished
    then show ?thesis using sp(1) by simp
  next
    case (Failed x)
    then show ?thesis using sp(1) by simp
  qed
  then show ?thesis unfolding promiseResolved_local_def Let_def .
qed

lemma pool_ok_local_promiseRejected:
  assumes "pool_ok_local e m"
  shows "pool_ok_local e (promiseRejected_local j x m)"
proof -
  let ?m1 = "setJob_local j (\<lambda>b. b\<lparr> j_state := Settled \<rparr>) m"
  have "pool_ok_local e ?m1" using assms by (rule pool_ok_local_settle)
  then show ?thesis
    unfolding promiseRejected_local_def Let_def
    by (simp add: pool_ok_local_def split: control.splits)
qed

lemma pool_ok_local_uploadReturnedFalse:
  assumes "pool_ok_local e m" "j_state (jobs_local m ! j) \<noteq> Settled"
  shows "pool_ok_local e (uploadReturnedFalse_local e j m)"
proof (cases "j_attempts (jobs_local m ! j) < retryTimes e")
  case True
  have "pool_local (setJob_local j (\<lambda>b. b\<lparr> j_state := Delaying (1000 * j_attempts b) \<rparr>) m)
      = pool_local m"
    using assms(2) by (intro pool_local_setJob_unsettled) simp_all
  then show ?thesis using True assms(1)
    by (simp add: uploadReturnedFalse_local_def pool_ok_local_def)
next
  case False
  then show ?thesis using pool_ok_local_promiseRejected[OF assms(1)]
    by (simp add: uploadReturnedFalse_local_def)
qed

lemma pool_ok_local_delayElapsed:
  assumes "pool_ok_local e m" "j < length (jobs_local m)" "j_state (jobs_local m ! j) \<noteq> Settled"
  shows "pool_ok_local e (delayElapsed_local e j m)"
proof (cases "j_attempts (jobs_local m ! j) < retryTimes e \<and> \<not> isPaused_local m")
  case True
  let ?m1 = "setJob_local j (\<lambda>b. b\<lparr> j_attempts := j_attempts b + 1 \<rparr>) m"
  have p1: "pool_local ?m1 = pool_local m"
    using assms(3) by (intro pool_local_setJob_unsettled) simp_all
  have "j_state (jobs_local ?m1 ! j) \<noteq> Settled"
    using assms(2,3) by (simp add: setJob_local_def)
  then have "pool_local (uploadChunk_call_local e j ?m1) = pool_local ?m1"
    by (rule pool_local_uploadChunk_call)
  then show ?thesis using True assms(1) p1
    by (simp add: delayElapsed_local_def pool_ok_local_def)
next
  case False
  then show ?thesis using pool_ok_local_promiseRejected[OF assms(1)]
    by (auto simp add: delayElapsed_local_def)
qed

lemma pool_ok_local_deliver: "pool_ok_local e m \<Longrightarrow> pool_ok_local e (deliver_local e m j)"
  unfolding deliver_local_def
  by (auto split: job_state.splits
      intro!: pool_ok_local_promiseResolved pool_ok_local_promiseRejected
        pool_ok_local_uploadReturnedFalse)

lemma pool_ok_local_foldl_deliver:
  "pool_ok_local e m \<Longrightarrow> pool_ok_local e (foldl (deliver_local e) m js)"
  by (induction js arbitrary: m) (simp_all add: pool_ok_local_deliver)

lemma pool_ok_local_flush: "pool_ok_local e m \<Longrightarrow> pool_ok_local e (flush_local e m)"
  by (simp add: flush_local_def pool_ok_local_foldl_deliver)

lemma pool_ok_local_uploadChunksConcurrently:
  assumes "pool_ok_local e m"
  shows "pool_ok_local e (uploadChunksConcurrently_local e who m)"
proof -
  let ?new = "\<lambda>pending. \<lparr> pendingChunks = pending, executing = [], control = Racing,
                           caller = who \<rparr>"
  have "pool_ok_local e (m\<lparr> passes_local := passes_local m @ [?new pending] \<rparr>)" for pending
    using assms unfolding pool_ok_local_iff by (auto simp add: nth_append)
  then show ?thesis
    unfolding uploadChunksConcurrently_local_def Let_def
    by (intro pool_ok_local_admitLoop) (simp_all add: nth_append)
qed

lemma passes_local_updateTotalProgress [simp]:
  "passes_local (updateTotalProgress_local m) = passes_local m"
  by (simp add: updateTotalProgress_local_def split: option.splits)

lemma jobs_local_updateTotalProgress [simp]:
  "jobs_local (updateTotalProgress_local m) = jobs_local m"
  by (simp add: updateTotalProgress_local_def split: option.splits)

lemma pool_local_checkUploadStatus [simp]:
  "pool_local (snd (checkUploadStatus_local e resp m)) = pool_local m"
  by (rule pool_local_fields)
    (simp_all add: checkUploadStatus_local_def Let_def assignChunks_local_def
       split: option.splits fetched.splits)

lemma pool_ok_local_startUpload:
  assumes "pool_ok_local e m"
  shows "pool_ok_local e (startUpload_local e check m)"
proof (cases "currentFile_local m")
  case None
  have "pool_local (m\<lparr> returned_local := r \<rparr>) = pool_local m" for r
    by (simp add: pool_local_def)
  then show ?thesis using None assms by (simp add: startUpload_local_def pool_ok_local_def)
next
  case (Some fileSize)
  show ?thesis
  proof (cases "fileHash_local m = []")
    case True
    have "pool_local (m\<lparr> returned_local := r \<rparr>) = pool_local m" for r
      by (simp add: pool_local_def)
    then show ?thesis using True Some assms
      by (simp add: startUpload_local_def pool_ok_local_def)
  next
    case False
    let ?m1 = "m\<lparr> speedInfo_local := fst resetNetworkStats,
                 networkStats_local := (snd resetNetworkStats)\<lparr> totalBytes := fileSize \<rparr>,
                 isUploading_local := True, isCompleted_local := False,
                 isPaused_local := False, isSecondTransfer_local := False \<rparr>"
    have p1: "pool_local ?m1 = pool_local m" by (simp add: pool_local_def)
    obtain res m2 where c: "checkUploadStatus_local e check ?m1 = (res, m2)"
      by (cases "checkUploadStatus_local e check ?m1") auto
    have p2: "pool_local m2 = pool_local m"
      using pool_local_checkUploadStatus[of e check ?m1] c p1 by simp
    then have ok2: "pool_ok_local e m2" using assms by (simp add: pool_ok_local_def)
    show ?thesis
    proof (cases res)
      case (Inl x)
      have "pool_ok_local e (callerThrew_local x m2)" using ok2 by (simp add: pool_ok_local_def)
      moreover have "startUpload_local e check m = callerThrew_local x m2"
        unfolding startUpload_local_def Let_def
        by (simp only: Some option.case False if_False c Inl sum.case prod.case)
      ultimately show ?thesis by simp
    next
      case (Inr r)
      show ?thesis
      proof (cases "fileExists_local r \<and> isComplete_local r")
        case True
        let ?done = "m2\<lparr> isCompleted_local := True, isUploading_local := False,
                         isSecondTransfer_local := True,
                         returned_local := returned_local m2 @ [Inr (orNull (url_local r))] \<rparr>"
        have "pool_local ?done = pool_local m2" by (simp add: pool_local_def)
        then have "pool_ok_local e ?done" using ok2 by (simp add: pool_ok_local_def)
        moreover have "startUpload_local e check m = ?done"
          unfolding startUpload_local_def Let_def
          by (simp only: Some option.case False if_False c Inr sum.case prod.case True simp_thms
              if_True)
        ultimately show ?thesis by simp
      next
        case no: False
        let ?m3 = "(if chunks_local m2 = []
                    then assignChunks_local
                           (createChunks_local (chunkSize e) fileSize (fileHash_local m2)) m2
                    else m2)"
        let ?m4 = "updateTotalProgress_local ?m3"
        have "pool_local ?m4 = pool_local m2" by simp
        then have ok4: "pool_ok_local e ?m4" using ok2 by (simp add: pool_ok_local_def)
        have fin: "pool_ok_local e
            (if length (uploadedChunks_local ?m4) = length (chunks_local ?m4)
             then mergeChunks_call_local ?m4
             else uploadChunksConcurrently_local e ByStartUpload ?m4)"
        proof (cases "length (uploadedChunks_local ?m4) = length (chunks_local ?m4)")
          case True
          have "pool_ok_local e (mergeChunks_call_local ?m4)"
            using ok4 by (simp add: pool_ok_local_def)
          then show ?thesis using True by (simp only: simp_thms if_True)
        next
          case False
          have "pool_ok_local e (uploadChunksConcurrently_local e ByStartUpload ?m4)"
            using ok4 by (rule pool_ok_local_uploadChunksConcurrently)
          then show ?thesis using False by (simp only: if_False)
        qed
        have "startUpload_local e check m =
            (if length (uploadedChunks_local ?m4) = length (chunks_local ?m4)
             then mergeChunks_call_local ?m4
             else uploadChunksConcurrently_local e ByStartUpload ?m4)"
          unfolding startUpload_local_def Let_def
          by (simp only: Some option.case False if_False c Inr sum.case prod.case no)
        then show ?thesis using fin by simp
      qed
    qed
  qed
qed

lemma pool_ok_local_resumeUpload:
  assumes "pool_ok_local e m"
  shows "pool_ok_local e (resumeUpload_local e m)"
proof (cases "currentFile_local m = None \<or> isCompleted_local m")
  case True
  have "pool_local (m\<lparr> returned_local := r \<rparr>) = pool_local m" for r
    by (simp add: pool_local_def)
  then show ?thesis using True assms by (simp add: resumeUpload_local_def pool_ok_local_def)
next
  case False
  have "pool_local (m\<lparr> isPaused_local := False, isUploading_local := True \<rparr>) = pool_local m"
    by (simp add: pool_local_def)
  then have "pool_ok_local e (m\<lparr> isPaused_local := False, isUploading_local := True \<rparr>)"
    using assms by (simp add: pool_ok_local_def)
  then have "pool_ok_local e (uploadChunksConcurrently_local e ByResumeUpload
          (m\<lparr> isPaused_local := False, isUploading_local := True \<rparr>))"
    by (rule pool_ok_local_uploadChunksConcurrently)
  then show ?thesis unfolding resumeUpload_local_def by (simp only: False if_False)
qed

lemma pool_ok_local_handle:
  assumes "pool_ok_local e m"
  shows "pool_ok_local e (handle_local e ev m)"
proof (cases ev)
  case (StartUpload_local check)
  then show ?thesis using assms by (simp add: pool_ok_local_startUpload)
next
  case ResumeUpload_local
  then show ?thesis using assms by (simp add: pool_ok_local_resumeUpload)
next
  case PauseUpload_local
  then show ?thesis using assms by (simp add: pool_ok_local_def)
next
  case (XhrProgress_local j l t now)
  then show ?thesis using assms by (simp add: pool_ok_local_def)
next
  case (XhrLoad_local j)
  show ?thesis
  proof (cases "uploading_local m j")
    case True
    let ?m1 = "updateTotalProgress_local
          (setChunk_local (j_chunk (jobs_local m ! j))
             (\<lambda>ch. ch\<lparr> uploaded_local := True, progress_local := 100 \<rparr>)
             (m\<lparr> acknowledged_local :=
                    acknowledged_local m
                      @ [index_local (heap_local m ! j_chunk (jobs_local m ! j))] \<rparr>))"
    have "pool_local (m\<lparr> acknowledged_local := a \<rparr>) = pool_local m" for a
      by (simp add: pool_local_def)
    then have "pool_ok_local e ?m1" using assms by (simp add: pool_ok_local_def)
    moreover have "j < length (jobs_local ?m1)" "j_state (jobs_local ?m1 ! j) \<noteq> Settled"
      using True by (simp_all add: uploading_local_def)
    ultimately have "pool_ok_local e (promiseResolved_local e j ?m1)"
      by (rule pool_ok_local_promiseResolved)
    then show ?thesis using True XhrLoad_local by (simp add: onLoad_local_def)
  next
    case False
    then show ?thesis using assms XhrLoad_local by simp
  qed
next
  case (XhrFailed_local j x)
  then show ?thesis using assms by (simp add: pool_ok_local_promiseRejected)
next
  case (TimerFired_local j)
  then show ?thesis using assms by simp
next
  case (DelayElapsed_local j)
  then show ?thesis using assms
    by (auto simp add: delaying_local_def split: job_state.splits
        intro!: pool_ok_local_delayElapsed)
next
  case (MergeResponse_local r)
  then show ?thesis using assms by (simp add: pool_ok_local_def)
qed

lemma pool_ok_local_step: "pool_ok_local e m \<Longrightarrow> pool_ok_local e (step_local e m ev)"
  by (simp add: step_local_def pool_ok_local_flush pool_ok_local_handle)

lemma pool_ok_local_run: "pool_ok_local e m \<Longrightarrow> pool_ok_local e (run_local e evs m)"
  unfolding run_local_def by (induction evs arbitrary: m) (simp_all add: pool_ok_local_step)

lemma pool_ok_local_initial:
  "jobs_local m = [] \<Longrightarrow> passes_local m = [] \<Longrightarrow> pool_ok_local e m"
  by (simp add: pool_ok_local_iff)

lemma inFlightOf_local_le_executing:
  assumes "pool_ok_local e m" "p < length (passes_local m)"
  shows "length (inFlightOf_local p m) \<le> length (executing (passes_local m ! p))"
proof -
  have d: "distinct (inFlightOf_local p m)"
    by (simp add: inFlightOf_local_def inFlight_local_def)
  have "set (inFlightOf_local p m) \<subseteq> set (executing (passes_local m ! p))"
    using assms(1) by (auto simp add: inFlightOf_local_def inFlight_local_def pool_ok_local_iff)
  then have "card (set (inFlightOf_local p m)) \<le> card (set (executing (passes_local m ! p)))"
    by (simp add: card_mono)
  also have "\<dots> \<le> length (executing (passes_local m ! p))" by (rule card_length)
  finally show ?thesis using d by (simp add: distinct_card)
qed

lemma inFlight_local_single_pass:
  assumes "pool_ok_local e m" "length (passes_local m) = 1"
  shows "inFlight_local m = inFlightOf_local 0 m"
proof -
  have "\<forall>j \<in> set (inFlight_local m). j_pass (jobs_local m ! j) = 0"
    using assms by (auto simp add: inFlight_local_def pool_ok_local_iff)
  then show ?thesis by (simp add: inFlightOf_local_def)
qed

section \<open>Percentages\<close>

text \<open>
  \<open>roundPercent\<close> at some inputs: 23 of 40 is 57 percent, since the double nearest to 0.575
  times 100 is the double just below 57.5; 1 of 2 is 50 percent; 1 of 1000 is 0 percent.
\<close>

lemma roundPercent_examples:
  "roundPercent 23 40 = 57 \<and> roundPercent 1 2 = 50 \<and> roundPercent 1 1000 = 0
   \<and> roundPercent 0 10 = 0 \<and> roundPercent 5 10 = 50 \<and> roundPercent 10 10 = 100
   \<and> toDouble (1, 10) = (7205759403792794, 72057594037927936)"
  by code_simp

section \<open>Bounded concurrency of a pass\<close>

text \<open>
  What one pass guarantees. In either hook, with a positive chunk size and from a state
  without a running pass, after any sequence of events the transporters in flight that
  one pass admitted never number more than \<open>max 1 concurrent\<close> (the loop pushes the promise
  of a chunk before it compares \<^verbatim>\<open>executing.length\<close> with \<^verbatim>\<open>concurrent\<close>); and as long as no
  second pass has been started this bounds all transporters in flight.
\<close>

lemma pool_bounded:
  assumes "0 < chunkSize e"
    and "jobs m = []" and "passes m = []"
    and "jobs_local n = []" and "passes_local n = []"
  shows "(\<forall>p < length (passes (run e evs m)).
            length (inFlightOf p (run e evs m)) \<le> max 1 (concurrent e))
       \<and> (1 \<le> concurrent e \<longrightarrow>
            (\<forall>p < length (passes (run e evs m)).
               length (inFlightOf p (run e evs m)) \<le> concurrent e))
       \<and> (length (passes (run e evs m)) \<le> 1 \<longrightarrow>
            length (inFlight (run e evs m)) \<le> max 1 (concurrent e))
       \<and> (\<forall>p < length (passes_local (run_local e evl n)).
            length (inFlightOf_local p (run_local e evl n)) \<le> max 1 (concurrent e))
       \<and> (1 \<le> concurrent e \<longrightarrow>
            (\<forall>p < length (passes_local (run_local e evl n)).
               length (inFlightOf_local p (run_local e evl n)) \<le> concurrent e))
       \<and> (length (passes_local (run_local e evl n)) \<le> 1 \<longrightarrow>
            length (inFlight_local (run_local e evl n)) \<le> max 1 (concurrent e))"
proof -
  let ?m = "run e evs m"
  have ok: "pool_ok e ?m"
    using assms(2,3) by (intro pool_ok_run pool_ok_initial)
  have a: "length (inFlightOf p ?m) \<le> max 1 (concurrent e)" if "p < length (passes ?m)" for p
  proof -
    have "length (inFlightOf p ?m) \<le> length (executing (passes ?m ! p))"
      using ok that by (rule inFlightOf_le_executing)
    also have "\<dots> \<le> max 1 (concurrent e)"
      using ok that by (simp add: pool_ok_iff)
    finally show ?thesis .
  qed
  have b: "length (inFlight ?m) \<le> max 1 (concurrent e)" if "length (passes ?m) \<le> 1"
  proof (cases "length (passes ?m) = 1")
    case True
    then show ?thesis using inFlight_single_pass[OF ok True] a[of 0] by simp
  next
    case False
    then have "passes ?m = []" using that by (cases "passes ?m") auto
    then have "inFlight ?m = []"
      using ok by (auto simp add: inFlight_def pool_ok_iff filter_empty_conv)
    then show ?thesis by simp
  qed
  let ?n = "run_local e evl n"
  have okl: "pool_ok_local e ?n"
    using assms(4,5) by (intro pool_ok_local_run pool_ok_local_initial)
  have c: "length (inFlightOf_local p ?n) \<le> max 1 (concurrent e)"
    if "p < length (passes_local ?n)" for p
  proof -
    have "length (inFlightOf_local p ?n) \<le> length (executing (passes_local ?n ! p))"
      using okl that by (rule inFlightOf_local_le_executing)
    also have "\<dots> \<le> max 1 (concurrent e)"
      using okl that by (simp add: pool_ok_local_iff)
    finally show ?thesis .
  qed
  have d: "length (inFlight_local ?n) \<le> max 1 (concurrent e)"
    if "length (passes_local ?n) \<le> 1"
  proof (cases "length (passes_local ?n) = 1")
    case True
    then show ?thesis using inFlight_local_single_pass[OF okl True] c[of 0] by simp
  next
    case False
    then have "passes_local ?n = []" using that by (cases "passes_local ?n") auto
    then have "inFlight_local ?n = []"
      using okl by (auto simp add: inFlight_local_def pool_ok_local_iff filter_empty_conv)
    then show ?thesis by simp
  qed
  have s3: "(\<forall>p < length (passes ?m). length (inFlightOf p ?m) \<le> max 1 (concurrent e))
       \<and> (1 \<le> concurrent e \<longrightarrow>
            (\<forall>p < length (passes ?m). length (inFlightOf p ?m) \<le> concurrent e))
       \<and> (length (passes ?m) \<le> 1 \<longrightarrow> length (inFlight ?m) \<le> max 1 (concurrent e))"
    using a b by (auto simp add: max_def)
  have loc: "(\<forall>p < length (passes_local ?n).
            length (inFlightOf_local p ?n) \<le> max 1 (concurrent e))
       \<and> (1 \<le> concurrent e \<longrightarrow>
            (\<forall>p < length (passes_local ?n).
               length (inFlightOf_local p ?n) \<le> concurrent e))
       \<and> (length (passes_local ?n) \<le> 1 \<longrightarrow>
            length (inFlight_local ?n) \<le> max 1 (concurrent e))"
    using c d by (auto simp add: max_def)
  show ?thesis using s3 loc by blast
qed

lemma pool_bounded_example:
  "0 < chunkSize (options 3)
   \<and> jobs (selected 25 ''h'') = [] \<and> passes (selected 25 ''h'') = []
   \<and> jobs_local (selected_local 25 ''h'') = [] \<and> passes_local (selected_local 25 ''h'') = []
   \<and> (1::nat) \<le> concurrent (options 3)
   \<and> length (passes (run (options 3) [StartUpload nothingStored sessionCreated, XhrLoad 0]
         (selected 25 ''h''))) \<le> 1
   \<and> inFlight (run (options 3) [StartUpload nothingStored sessionCreated, XhrLoad 0]
         (selected 25 ''h'')) = [1, 2, 3]
   \<and> length (inFlight (run (options 3) [StartUpload nothingStored sessionCreated, XhrLoad 0]
         (selected 25 ''h''))) \<le> max 1 (concurrent (options 3))
   \<and> length (passes_local (run_local (options 3)
         [StartUpload_local nothingStored_local, XhrLoad_local 0]
         (selected_local 25 ''h''))) \<le> 1
   \<and> inFlight_local (run_local (options 3)
         [StartUpload_local nothingStored_local, XhrLoad_local 0]
         (selected_local 25 ''h'')) = [1, 2, 3]
   \<and> length (inFlight_local (run_local (options 3)
         [StartUpload_local nothingStored_local, XhrLoad_local 0]
         (selected_local 25 ''h''))) \<le> max 1 (concurrent (options 3))"
proof -
  have h: "jobs (selected 25 ''h'') = []" "passes (selected 25 ''h'') = []"
    by (simp_all add: selected_def reset_def)
  have hl: "jobs_local (selected_local 25 ''h'') = []"
    "passes_local (selected_local 25 ''h'') = []"
    by (simp_all add: selected_local_def reset_local_def)
  have c: "(1::nat) \<le> concurrent (options 3)" by (simp add: options_def)
  have z: "0 < chunkSize (options 3)" by (simp add: options_def)
  have p: "length (passes (run (options 3) [StartUpload nothingStored sessionCreated, XhrLoad 0]
         (selected 25 ''h''))) \<le> 1"
    by code_simp
  have f: "inFlight (run (options 3) [StartUpload nothingStored sessionCreated, XhrLoad 0]
         (selected 25 ''h'')) = [1, 2, 3]"
    by code_simp
  have pl: "length (passes_local (run_local (options 3)
         [StartUpload_local nothingStored_local, XhrLoad_local 0]
         (selected_local 25 ''h''))) \<le> 1"
    by code_simp
  have fl: "inFlight_local (run_local (options 3)
         [StartUpload_local nothingStored_local, XhrLoad_local 0]
         (selected_local 25 ''h'')) = [1, 2, 3]"
    by code_simp
  show ?thesis
    using z h hl c p f pl fl
      pool_bounded [OF z h hl,
        where evs = "[StartUpload nothingStored sessionCreated, XhrLoad 0]"
          and evl = "[StartUpload_local nothingStored_local, XhrLoad_local 0]"]
    by blast
qed

text \<open>
  Claim C2 on the code. The bound holds for one pass, but \<^verbatim>\<open>resumeUpload\<close> starts a second
  pass while transporters of the first are still in flight, and the two passes count
  separately. S3 hook: the chunks in flight have progress events that round to 0 percent
  (1 byte of 1000), so \<^verbatim>\<open>pauseUpload\<close> aborts none of them, and after \<^verbatim>\<open>resumeUpload\<close> two
  uploads are in flight at the limit 1, and four (a file of two chunks) at the limit 3.
  Local hook: \<^verbatim>\<open>pauseUpload\<close> aborts nothing, and after \<^verbatim>\<open>resumeUpload\<close> two uploads are in
  flight at the limit 1, and six (a file of five chunks) at the limit 3.
\<close>

theorem resume_exceeds_concurrency:
  "concurrent (options 1) = 1
   \<and> length (inFlight (run (options 1)
        [StartUpload nothingStored sessionCreated, XhrProgress 0 1 1000 7, PauseUpload,
         ResumeUpload] (selected 10 ''h''))) = 2
   \<and> length (inFlight_local (run_local (options 1)
        [StartUpload_local nothingStored_local, PauseUpload_local, ResumeUpload_local]
        (selected_local 10 ''h''))) = 2
   \<and> concurrent (options 3) = 3
   \<and> length (inFlight (run (options 3)
        [StartUpload nothingStored sessionCreated, XhrProgress 0 1 1000 7,
         XhrProgress 1 1 1000 8, PauseUpload, ResumeUpload]
        (selected 10 ''h''))) = 4
   \<and> length (inFlight_local (run_local (options 3)
        [StartUpload_local nothingStored_local, PauseUpload_local, ResumeUpload_local]
        (selected_local 25 ''h''))) = 6"
  by code_simp

section \<open>One transporter per chunk\<close>

text \<open>
  Claim C3 on the code. S3 hook, two chunks, one upload at a time. The first chunk is in
  flight and a progress event reports 1 byte of 1000, which rounds to 0 percent.
  \<^verbatim>\<open>pauseUpload\<close> skips the chunk (its guard needs \<^verbatim>\<open>progress > 0\<close>), \<^verbatim>\<open>resumeUpload\<close> clears
  \<^verbatim>\<open>executingChunks\<close> and its pass admits the chunk again: two transporters for chunk 0 are
  in flight. When the first of them loads, the first pass admits chunk 1 and index 1 is in
  \<^verbatim>\<open>executingChunks\<close>; when the second loads, the second pass admits chunk 1 as well, from
  the list it computed at its start: two transporters for chunk 1 are in flight. Local
  hook, same file: \<^verbatim>\<open>pauseUpload\<close> only sets the flag, and the pass of \<^verbatim>\<open>resumeUpload\<close> admits
  the chunk in flight again: two transporters for chunk 0.
\<close>

theorem resume_duplicates_transporter:
  "map (\<lambda>b. (j_chunk b, j_state b))
     (jobs (run (options 1)
        [StartUpload nothingStored sessionCreated, XhrProgress 0 1 1000 7, PauseUpload,
         ResumeUpload] (selected 10 ''h'')))
     = [(0, Uploading), (0, Uploading)]
   \<and> 1 \<in> executingChunks (run (options 1)
        [StartUpload nothingStored sessionCreated, XhrProgress 0 1 1000 7, PauseUpload,
         ResumeUpload, XhrLoad 0] (selected 10 ''h''))
   \<and> map (\<lambda>b. (j_chunk b, j_state b))
     (jobs (run (options 1)
        [StartUpload nothingStored sessionCreated, XhrProgress 0 1 1000 7, PauseUpload,
         ResumeUpload, XhrLoad 0, XhrLoad 1] (selected 10 ''h'')))
     = [(0, Settled), (0, Settled), (1, Uploading), (1, Uploading)]
   \<and> map (\<lambda>b. (j_chunk b, j_state b))
     (jobs_local (run_local (options 1)
        [StartUpload_local nothingStored_local, PauseUpload_local, ResumeUpload_local]
        (selected_local 10 ''h'')))
     = [(0, Uploading), (0, Uploading)]
   \<and> requests_local (run_local (options 1)
        [StartUpload_local nothingStored_local, PauseUpload_local, ResumeUpload_local]
        (selected_local 10 ''h''))
     = [CheckRequest_local, ChunkRequest_local 0, ChunkRequest_local 0]"
  by code_simp

section \<open>Retry of a failed chunk\<close>

text \<open>
  Claim C5 on the code, with three attempts allowed. A file of one chunk, three uploads at
  a time: the request of the chunk fails with a network error. The chunk is not attempted
  again (one chunk request, one attempt, the job has settled), its \<^verbatim>\<open>retryCount\<close> stays 0,
  it is not uploaded, and the pass, which waits in \<^verbatim>\<open>Promise.allSettled\<close>, returns, so that
  \<^verbatim>\<open>startUpload\<close> sends the complete request instead of throwing. A file of two chunks,
  one upload at a time: the same failure ends the pass and \<^verbatim>\<open>startUpload\<close> with the network
  error after a single attempt, again with \<^verbatim>\<open>retryCount\<close> 0, and a later success of the
  request finds no transporter.
\<close>

theorem failed_chunk_is_not_retried:
  "map (\<lambda>c. (uploaded c, retryCount c)) (chunks (run (options 3)
      [StartUpload nothingStored sessionCreated, XhrFailed 0 NetworkError] (selected 5 ''h'')))
     = [(False, 0)]
   \<and> map (\<lambda>b. (j_attempts b, j_state b)) (jobs (run (options 3)
      [StartUpload nothingStored sessionCreated, XhrFailed 0 NetworkError] (selected 5 ''h'')))
     = [(1, Settled)]
   \<and> requests (run (options 3)
      [StartUpload nothingStored sessionCreated, XhrFailed 0 NetworkError] (selected 5 ''h''))
     = [CheckRequest, InitializeRequest, ChunkRequest 0, CompleteRequest]
   \<and> returned (run (options 3)
      [StartUpload nothingStored sessionCreated, XhrFailed 0 NetworkError] (selected 5 ''h''))
     = []
   \<and> map (\<lambda>c. (uploaded c, retryCount c)) (chunks (run (options 1)
      [StartUpload nothingStored sessionCreated, XhrFailed 0 NetworkError, XhrLoad 0]
      (selected 10 ''h'')))
     = [(False, 0), (False, 0)]
   \<and> returned (run (options 1)
      [StartUpload nothingStored sessionCreated, XhrFailed 0 NetworkError, XhrLoad 0]
      (selected 10 ''h''))
     = [Inl NetworkError]"
  by code_simp

section \<open>Pause and resume\<close>

text \<open>
  Claim C7 on the code. Two chunks in flight: chunk 0 at 50 percent, chunk 1 with a
  progress event of 1 byte of 1000, which rounds to 0 percent. \<^verbatim>\<open>pauseUpload\<close> aborts and
  resets chunk 0 and leaves the transporter of chunk 1 in flight. \<^verbatim>\<open>resumeUpload\<close> then
  admits both chunks, so chunk 1 has two transporters, and the backend acknowledges chunk
  1 twice.
\<close>

theorem pause_leaves_transporter_in_flight:
  "map progress (chunks (run (options 3)
      [StartUpload nothingStored sessionCreated, XhrProgress 0 1 2 7,
       XhrProgress 1 1 1000 8] (selected 10 ''h''))) = [50, 0]
   \<and> inFlight (run (options 3)
      [StartUpload nothingStored sessionCreated, XhrProgress 0 1 2 7,
       XhrProgress 1 1 1000 8] (selected 10 ''h'')) = [0, 1]
   \<and> map (\<lambda>b. (j_chunk b, j_state b)) (jobs (run (options 3)
      [StartUpload nothingStored sessionCreated, XhrProgress 0 1 2 7,
       XhrProgress 1 1 1000 8, PauseUpload] (selected 10 ''h'')))
       = [(0, Settled), (1, Uploading)]
   \<and> map (\<lambda>b. (j_chunk b, j_state b)) (jobs (run (options 3)
      [StartUpload nothingStored sessionCreated, XhrProgress 0 1 2 7,
       XhrProgress 1 1 1000 8, PauseUpload, ResumeUpload] (selected 10 ''h'')))
       = [(0, Settled), (1, Uploading), (0, Uploading), (1, Uploading)]
   \<and> acknowledged (run (options 3)
      [StartUpload nothingStored sessionCreated, XhrProgress 0 1 2 7,
       XhrProgress 1 1 1000 8, PauseUpload, ResumeUpload, XhrLoad 1, XhrLoad 3, XhrLoad 2]
      (selected 10 ''h'')) = [1, 1, 0]"
  by code_simp

section \<open>The timeout of a transporter\<close>

text \<open>Jobs that exist keep their record while a pass admits further chunks.\<close>

lemma jobs_setPass [simp]: "jobs (setPass p f m) = jobs m"
  by (simp add: setPass_def)

lemma jobs_callerThrew [simp]: "jobs (callerThrew x m) = jobs m"
  by (simp add: callerThrew_def)

lemma jobs_callerReturned [simp]: "jobs (callerReturned x m) = jobs m"
  by (simp add: callerReturned_def)

lemma jobs_completeUpload_call [simp]: "jobs (completeUpload_call m) = jobs m"
  by (simp add: completeUpload_call_def)

lemma jobs_passReturned [simp]: "jobs (passReturned p m) = jobs m"
  by (simp add: passReturned_def Let_def split: caller.splits)

lemma jobs_passThrew [simp]: "jobs (passThrew p x m) = jobs m"
  by (simp add: passThrew_def)

lemma jobs_awaitAllSettled [simp]: "jobs (awaitAllSettled p m) = jobs m"
  by (simp add: awaitAllSettled_def)

lemma jobs_uploadChunk_call:
  "length (jobs (uploadChunk_call e j m)) = length (jobs m)"
  "i \<noteq> j \<Longrightarrow> jobs (uploadChunk_call e j m) ! i = jobs m ! i"
  by (simp_all add: uploadChunk_call_def Let_def setJob_def)

lemma jobs_uploadSingleChunk_call:
  "length (jobs (uploadSingleChunk_call e p c m)) = Suc (length (jobs m))"
  "i < length (jobs m) \<Longrightarrow> jobs (uploadSingleChunk_call e p c m) ! i = jobs m ! i"
  by (simp_all add: uploadSingleChunk_call_def Let_def jobs_uploadChunk_call nth_append)

lemma jobs_admitLoop:
  "i < length (jobs m) \<Longrightarrow>
     jobs (admitLoop e p cs m) ! i = jobs m ! i \<and> i < length (jobs (admitLoop e p cs m))"
proof (induction cs arbitrary: m)
  case Nil
  then show ?case by simp
next
  case (Cons c cs)
  let ?m2 = "setPass p (\<lambda>q. q\<lparr> executing := executing q @ [length (jobs m)] \<rparr>)
                    (uploadSingleChunk_call e p c m)"
  have a: "jobs ?m2 ! i = jobs m ! i" "i < length (jobs ?m2)"
    using Cons.prems by (simp_all add: jobs_uploadSingleChunk_call)
  show ?case
    using Cons.prems a Cons.IH[of ?m2] by (simp add: Let_def)
qed

lemma jobs_raceResolved:
  "i < length (jobs m) \<Longrightarrow>
     jobs (raceResolved e p m) ! i = jobs m ! i \<and> i < length (jobs (raceResolved e p m))"
  by (cases "control (passes m ! p)") (simp_all add: raceResolved_def jobs_admitLoop)

lemma jobs_raceRejected [simp]: "jobs (raceRejected p x m) = jobs m"
  by (simp add: raceRejected_def split: control.splits)

lemma spliceJob_settles:
  "j < length (jobs m) \<Longrightarrow>
     j_state (jobs (spliceJob j m) ! j) = Settled \<and> j < length (jobs (spliceJob j m))"
  by (simp add: spliceJob_def setJob_def)

lemma promiseResolved_settles:
  assumes "j < length (jobs m)"
  shows "j_state (jobs (promiseResolved e j m) ! j) = Settled"
  using spliceJob_settles[OF assms] jobs_raceResolved[of j "spliceJob j m" e]
  by (simp add: promiseResolved_def)

lemma promiseRejected_settles:
  assumes "j < length (jobs m)"
  shows "j_state (jobs (promiseRejected e j x m) ! j) = Settled"
  using spliceJob_settles[OF assms] jobs_raceResolved[of j "spliceJob j m" e]
  by (simp add: promiseRejected_def)

lemma uploadRejected_settles:
  assumes "j < length (jobs m)"
  shows "j_state (jobs (uploadRejected e j x m) ! j) = Settled"
proof -
  have "j < length (jobs (finallyDelete j m))" using assms by (simp add: finallyDelete_def)
  then show ?thesis
    by (simp add: uploadRejected_def promiseResolved_settles promiseRejected_settles)
qed

text \<open>
  Claim C8, as stated: the timeout of a transporter of the S3 hook is not between 30 and
  60 seconds.
\<close>

theorem timeout_out_of_range_counterexample:
  "\<not> (30 * 1000 \<le> uploadTimeoutMs \<and> uploadTimeoutMs \<le> 60 * 1000)"
  by (simp add: uploadTimeoutMs_def)

text \<open>
  Claim C8, amended. The timer of a transporter of the S3 hook is set to 60 000 * 60 ms,
  one hour. When it fires while the request is in flight: if the abort signal of the
  chunk is set, nothing happens; else the request is aborted, so it is no longer in
  flight, and the promise of the transporter is rejected with an error that does not
  carry the marker of a cancellation.
\<close>

theorem transporter_timeout:
  assumes "uploading m j"
  shows "uploadTimeoutMs = 60 * 60 * 1000
    \<and> (signalAborted (abortController (chunks m ! j_chunk (jobs m ! j))) m \<longrightarrow>
          handle e (XhrTimeout j) m = m)
    \<and> (\<not> signalAborted (abortController (chunks m ! j_chunk (jobs m ! j))) m \<longrightarrow>
          handle e (XhrTimeout j) m
            = uploadRejected e j (firstReject [RequestAborted, UploadTimeout]) m
        \<and> \<not> mentionsCancel (firstReject [RequestAborted, UploadTimeout])
        \<and> \<not> mentionsCancel UploadTimeout
        \<and> j \<notin> set (inFlight (handle e (XhrTimeout j) m)))"
proof -
  have j: "j < length (jobs m)" using assms by (simp add: uploading_def)
  have a: "uploadTimeoutMs = 60 * 60 * 1000" by (simp add: uploadTimeoutMs_def)
  have b: "handle e (XhrTimeout j) m = m"
    if "signalAborted (abortController (chunks m ! j_chunk (jobs m ! j))) m"
    using that assms by (simp add: onTimeout_def)
  have c: "handle e (XhrTimeout j) m
            = uploadRejected e j (firstReject [RequestAborted, UploadTimeout]) m"
    if "\<not> signalAborted (abortController (chunks m ! j_chunk (jobs m ! j))) m"
    using that assms by (simp add: onTimeout_def)
  have d: "\<not> mentionsCancel (firstReject [RequestAborted, UploadTimeout])"
    "\<not> mentionsCancel UploadTimeout"
    by (simp_all add: mentionsCancel_def firstReject_def)
  have s: "j_state (jobs (uploadRejected e j x m) ! j) = Settled" for x
    using j by (rule uploadRejected_settles)
  have f: "j \<notin> set (inFlight (uploadRejected e j x m))" for x
    using s[of x] by (simp add: inFlight_def)
  show ?thesis using a b c d f by simp
qed

theorem transporter_timeout_witness:
  "uploading (run (options 1) [StartUpload nothingStored sessionCreated] (selected 10 ''h'')) 0
   \<and> \<not> signalAborted (abortController
          (chunks (run (options 1) [StartUpload nothingStored sessionCreated] (selected 10 ''h''))
            ! j_chunk (jobs (run (options 1) [StartUpload nothingStored sessionCreated]
                (selected 10 ''h'')) ! 0)))
        (run (options 1) [StartUpload nothingStored sessionCreated] (selected 10 ''h''))
   \<and> 0 \<notin> set (inFlight (handle (options 1) (XhrTimeout 0)
        (run (options 1) [StartUpload nothingStored sessionCreated] (selected 10 ''h''))))"
proof -
  let ?m = "run (options 1) [StartUpload nothingStored sessionCreated] (selected 10 ''h'')"
  have u: "uploading ?m 0" by code_simp
  have n: "\<not> signalAborted (abortController (chunks ?m ! j_chunk (jobs ?m ! 0))) ?m"
    by code_simp
  show ?thesis using u n transporter_timeout [OF u, of "options 1"] by blast
qed

end
